theory Spec2Isabelle
  imports Main "HOL-Library.Word" "HOL-Library.Log_Nat" "HOL-Library.Signed_Division"
begin

unbundle bit_operations_syntax

section \<open>Errors and results\<close>

text \<open>
  Every \<^verbatim>\<open>throw\<close> of \<^verbatim>\<open>src/fixed-point.ts\<close> is a value of \<open>error\<close>; a function that can
  throw returns \<open>error + 'a\<close>. \<open>RangeError\<close> is the error the JavaScript runtime itself
  raises: BigInt division or remainder by \<open>0n\<close>, and \<open>BigInt(x)\<close> for a number \<open>x\<close> that is
  not an integer.
\<close>

datatype error =
    ConfigNotInteger       \<comment> \<open>"Fixed-point config must use integer bit sizes."\<close>
  | ConfigFractionBits     \<comment> \<open>"fractionBits must be > 0."\<close>
  | ConfigTotalBits        \<comment> \<open>"totalBits must be greater than fractionBits."\<close>
  | ConfigUseBigInt        \<comment> \<open>"useBigInt=false is not supported for totalBits > 32."\<close>
  | NotFiniteInteger       \<comment> \<open>wrapNumber: "Fixed-point values must be finite integers."\<close>
  | OperandNotInteger      \<comment> \<open>assertInteger: "... must be a finite integer fixed-point value."\<close>
  | DivisionByZero         \<comment> \<open>"Division by zero in fixed-point arithmetic"\<close>
  | SqrtOfNegative         \<comment> \<open>"Sqrt of negative number"\<close>
  | StringEmpty            \<comment> \<open>"Fixed-point string is empty."\<close>
  | StringInvalid          \<comment> \<open>"Invalid fixed-point string."\<close>
  | RangeError             \<comment> \<open>raised by the runtime\<close>

definition bindE :: "error + 'a \<Rightarrow> ('a \<Rightarrow> error + 'b) \<Rightarrow> error + 'b" where
  "bindE m f = (case m of Inl e \<Rightarrow> Inl e | Inr x \<Rightarrow> f x)"

section \<open>JavaScript BigInt\<close>

text \<open>
  A \<^verbatim>\<open>bigint\<close> is an \<open>int\<close>. \<^verbatim>\<open>a / b\<close> truncates toward zero and \<^verbatim>\<open>a % b\<close> takes the sign of
  the dividend (\<open>sdiv\<close> and \<open>smod\<close>); both raise a RangeError when \<open>b\<close> is \<open>0n\<close>.
  \<^verbatim>\<open>a << n\<close> is \<open>push_bit\<close>, \<^verbatim>\<open>a >> n\<close> is \<open>drop_bit\<close> (it floors), \<^verbatim>\<open>a & b\<close> is \<open>AND\<close> on the
  two's-complement representation.
\<close>

definition bigint_div :: "int \<Rightarrow> int \<Rightarrow> error + int" where
  "bigint_div a b = (if b = 0 then Inl RangeError else Inr (a sdiv b))"

definition bigint_rem :: "int \<Rightarrow> int \<Rightarrow> error + int" where
  "bigint_rem a b = (if b = 0 then Inl RangeError else Inr (a smod b))"

section \<open>JavaScript numbers\<close>

text \<open>
  A \<^verbatim>\<open>number\<close> is an IEEE 754 double: a finite value (a rational), NaN or an infinity. The
  sign of zero is not modelled: \<open>-0\<close> and \<open>+0\<close> are the same number \<open>Fin 0\<close>, as they are for
  \<^verbatim>\<open>===\<close>, \<^verbatim>\<open><\<close>, \<^verbatim>\<open>BigInt(x)\<close> and \<^verbatim>\<open>x | 0\<close>.
  \<open>fl q\<close> is the double nearest to the rational \<open>q\<close>, ties to the even significand: 53 bits
  of significand, the smallest exponent of the unit in the last place is \<open>-1074\<close>, and a
  magnitude that rounds to \<open>2 ^ 1024\<close> or more is an infinity.
\<close>

datatype number = Fin rat | NaN | PosInf | NegInf

definition ilog2 :: "rat \<Rightarrow> int" where
  \<comment> \<open>\<open>\<lfloor>log\<^sub>2 q\<rfloor>\<close> for \<open>0 < q\<close>\<close>
  "ilog2 q = (if 1 \<le> q then bitlen \<lfloor>q\<rfloor> - 1 else - bitlen (\<lceil>1 / q\<rceil> - 1))"

definition roundTiesToEven :: "rat \<Rightarrow> int" where
  "roundTiesToEven x =
     (let f = \<lfloor>x\<rfloor>; d = x - of_int f
      in if d < 1 / 2 then f else if 1 / 2 < d then f + 1 else if even f then f else f + 1)"

definition fl :: "rat \<Rightarrow> number" where
  "fl q =
     (if q = 0 then Fin 0
      else let e = max (ilog2 \<bar>q\<bar> - 52) (- 1074);
               n = roundTiesToEven (\<bar>q\<bar> / 2 powi e);
               r = of_int n * 2 powi e
           in if 2 ^ 1024 \<le> r then (if q < 0 then NegInf else PosInf) else Fin (sgn q * r))"

text \<open>\<^verbatim>\<open>Number(b)\<close> for a bigint \<open>b\<close>, and \<^verbatim>\<open>BigInt(x)\<close> for a number \<open>x\<close>.\<close>

definition Number :: "int \<Rightarrow> number" where
  "Number b = fl (of_int b)"

fun isFinite :: "number \<Rightarrow> bool" where
  "isFinite (Fin q) = True"
| "isFinite _ = False"

fun isInteger :: "number \<Rightarrow> bool" where
  "isInteger (Fin q) = (of_int \<lfloor>q\<rfloor> = q)"
| "isInteger _ = False"

fun BigInt :: "number \<Rightarrow> error + int" where
  "BigInt (Fin q) = (if of_int \<lfloor>q\<rfloor> = q then Inr \<lfloor>q\<rfloor> else Inl RangeError)"
| "BigInt _ = Inl RangeError"

text \<open>The arithmetic operators on numbers: the exact result, rounded by \<open>fl\<close>.\<close>

fun num_neg :: "number \<Rightarrow> number" where
  "num_neg (Fin a) = Fin (- a)"
| "num_neg NaN = NaN"
| "num_neg PosInf = NegInf"
| "num_neg NegInf = PosInf"

fun num_add :: "number \<Rightarrow> number \<Rightarrow> number" where
  "num_add (Fin a) (Fin b) = fl (a + b)"
| "num_add NaN _ = NaN"
| "num_add _ NaN = NaN"
| "num_add PosInf NegInf = NaN"
| "num_add NegInf PosInf = NaN"
| "num_add PosInf _ = PosInf"
| "num_add NegInf _ = NegInf"
| "num_add _ PosInf = PosInf"
| "num_add _ NegInf = NegInf"

definition num_sub :: "number \<Rightarrow> number \<Rightarrow> number" where
  "num_sub a b = num_add a (num_neg b)"

fun num_mul :: "number \<Rightarrow> number \<Rightarrow> number" where
  "num_mul (Fin a) (Fin b) = fl (a * b)"
| "num_mul NaN _ = NaN"
| "num_mul _ NaN = NaN"
| "num_mul (Fin a) PosInf = (if a = 0 then NaN else if 0 < a then PosInf else NegInf)"
| "num_mul (Fin a) NegInf = (if a = 0 then NaN else if 0 < a then NegInf else PosInf)"
| "num_mul PosInf (Fin b) = (if b = 0 then NaN else if 0 < b then PosInf else NegInf)"
| "num_mul NegInf (Fin b) = (if b = 0 then NaN else if 0 < b then NegInf else PosInf)"
| "num_mul PosInf PosInf = PosInf"
| "num_mul NegInf NegInf = PosInf"
| "num_mul PosInf NegInf = NegInf"
| "num_mul NegInf PosInf = NegInf"

text \<open>
  \<^verbatim>\<open>a / b\<close>; the code divides by \<^verbatim>\<open>ONE\<close> only, which is positive, so a zero divisor is
  taken as \<open>+0\<close>.
\<close>

fun num_div :: "number \<Rightarrow> number \<Rightarrow> number" where
  "num_div (Fin a) (Fin b) =
     (if b = 0 then (if a = 0 then NaN else if 0 < a then PosInf else NegInf) else fl (a / b))"
| "num_div NaN _ = NaN"
| "num_div _ NaN = NaN"
| "num_div (Fin a) _ = Fin 0"
| "num_div PosInf (Fin b) = (if 0 \<le> b then PosInf else NegInf)"
| "num_div NegInf (Fin b) = (if 0 \<le> b then NegInf else PosInf)"
| "num_div _ _ = NaN"

text \<open>\<^verbatim>\<open>a % b\<close> on numbers is exact and takes the sign of the dividend.\<close>

definition trunc :: "rat \<Rightarrow> int" where
  "trunc q = (if 0 \<le> q then \<lfloor>q\<rfloor> else \<lceil>q\<rceil>)"

fun num_rem :: "number \<Rightarrow> number \<Rightarrow> number" where
  "num_rem (Fin a) (Fin b) = (if b = 0 then NaN else Fin (a - b * of_int (trunc (a / b))))"
| "num_rem (Fin a) PosInf = Fin a"
| "num_rem (Fin a) NegInf = Fin a"
| "num_rem _ _ = NaN"

fun num_lt :: "number \<Rightarrow> number \<Rightarrow> bool" where
  "num_lt (Fin a) (Fin b) = (a < b)"
| "num_lt NaN _ = False"
| "num_lt _ NaN = False"
| "num_lt PosInf _ = False"
| "num_lt _ NegInf = False"
| "num_lt _ PosInf = True"
| "num_lt NegInf _ = True"

fun num_eq :: "number \<Rightarrow> number \<Rightarrow> bool" where
  "num_eq NaN _ = False"
| "num_eq _ NaN = False"
| "num_eq a b = (a = b)"

definition num_le :: "number \<Rightarrow> number \<Rightarrow> bool" where
  "num_le a b = (num_lt a b \<or> num_eq a b)"

text \<open>\<^verbatim>\<open>Math.round\<close> rounds a tie toward \<open>+\<infinity>\<close>; \<^verbatim>\<open>Math.trunc\<close> drops the fraction.\<close>

fun Math_round :: "number \<Rightarrow> number" where
  "Math_round (Fin q) = Fin (of_int \<lfloor>q + 1 / 2\<rfloor>)"
| "Math_round x = x"

fun Math_trunc :: "number \<Rightarrow> number" where
  "Math_trunc (Fin q) = Fin (of_int (trunc q))"
| "Math_trunc x = x"

text \<open>\<^verbatim>\<open>value | 0\<close>: ToInt32, the integer part modulo \<open>2 ^ 32\<close>, read as a signed 32-bit value.\<close>

fun or_zero :: "number \<Rightarrow> number" where
  "or_zero (Fin q) = Fin (of_int (sint (word_of_int (trunc q) :: 32 word)))"
| "or_zero _ = Fin 0"

section \<open>Helpers of the module\<close>

text \<open>
  \<^verbatim>\<open>isqrt\<close> (lines 110-119). The loop state is the pair \<open>(x0, x1)\<close>; the division
  \<^verbatim>\<open>n / x0\<close> raises when \<open>x0\<close> is zero. \<open>None\<close> is a loop that never ends.
\<close>

partial_function (option) isqrt_loop :: "int \<Rightarrow> int \<Rightarrow> int \<Rightarrow> (error + int) option" where
  "isqrt_loop n x0 x1 =
     (if x1 < x0 then
        (case bigint_div n x1 of
           Inl e \<Rightarrow> Some (Inl e)
         | Inr q \<Rightarrow> isqrt_loop n x1 (drop_bit 1 (x1 + q)))
      else Some (Inr x0))"

declare isqrt_loop.simps [code]

definition isqrt :: "int \<Rightarrow> (error + int) option" where
  "isqrt n =
     (if n < 2 then Some (Inr n)
      else (case bigint_div n n of
              Inl e \<Rightarrow> Some (Inl e)
            | Inr q \<Rightarrow> isqrt_loop n n (drop_bit 1 (n + q))))"

text \<open>\<^verbatim>\<open>floorDiv\<close> (lines 122-127).\<close>

definition floorDiv :: "int \<Rightarrow> int \<Rightarrow> error + int" where
  "floorDiv a b =
     bindE (bigint_div a b) (\<lambda>q.
     bindE (bigint_rem a b) (\<lambda>r.
       if r = 0 then Inr q else if a < 0 then Inr (q - 1) else Inr q))"

text \<open>
  \<^verbatim>\<open>parseFixedPointString\<close> (lines 133-178). A JavaScript string is a \<open>string\<close>, one \<open>char\<close>
  for each code unit below 256; \<^verbatim>\<open>trim\<close> removes the white space and line terminators among
  them. The \<^verbatim>\<open>typeof\<close> check of line 134 has no branch: the argument has the type \<open>string\<close>.
\<close>

definition isWhiteSpace :: "char \<Rightarrow> bool" where
  "isWhiteSpace c = (of_char c \<in> {9, 10, 11, 12, 13, 32, 160 :: nat})"

definition trim :: "string \<Rightarrow> string" where
  "trim s = rev (dropWhile isWhiteSpace (rev (dropWhile isWhiteSpace s)))"

fun split :: "char \<Rightarrow> string \<Rightarrow> string list" where
  "split c [] = [[]]"
| "split c (x # xs) =
     (if x = c then [] # split c xs
      else (case split c xs of p # ps \<Rightarrow> (x # p) # ps | [] \<Rightarrow> [[x]]))"

definition isDigit :: "char \<Rightarrow> bool" where
  "isDigit c = (48 \<le> (of_char c :: nat) \<and> (of_char c :: nat) \<le> 57)"

definition digitValue :: "char \<Rightarrow> int" where
  "digitValue c = int (of_char c) - 48"

definition BigInt_of_digits :: "string \<Rightarrow> int" where
  \<comment> \<open>\<^verbatim>\<open>BigInt(s)\<close> for a string of decimal digits\<close>
  "BigInt_of_digits s = foldl (\<lambda>acc c. 10 * acc + digitValue c) 0 s"

definition parseFixedPointString :: "string \<Rightarrow> nat \<Rightarrow> error + int" where
  "parseFixedPointString value fractionBits =
     (let trimmed = trim value in
      if length trimmed = 0 then Inl StringEmpty
      else
        let first = hd trimmed;
            sign = (if first = CHR ''-'' then - 1 else 1 :: int);
            start = (if first = CHR ''+'' \<or> first = CHR ''-'' then 1 else 0 :: nat);
            rest = drop start trimmed;
            parts = split CHR ''.'' rest
        in if length parts > 2 then Inl StringInvalid
           else
             let intPartStr = hd parts;
                 fracPartStr = (if length parts = 2 then parts ! 1 else [])
             in if intPartStr = [] \<and> fracPartStr = [] then Inl StringInvalid
                else if \<not> list_all isDigit intPartStr \<or> \<not> list_all isDigit fracPartStr
                  then Inl StringInvalid
                else
                  let intPart = (if intPartStr = [] then 0 else BigInt_of_digits intPartStr);
                      fracPart = (if fracPartStr = [] then 0 else BigInt_of_digits fracPartStr);
                      denom = (if fracPartStr = [] then 1 else 10 ^ length fracPartStr);
                      scaledBase = push_bit fractionBits (intPart * denom + fracPart);
                      half = denom sdiv 2;
                      signedNumerator = sign * scaledBase
                  in floorDiv (signedNumerator + half) denom)"

section \<open>createFixedPoint\<close>

text \<open>
  The configuration object: an absent field is \<open>None\<close>. A format is what the closures of
  \<^verbatim>\<open>createFixedPoint\<close> capture once the checks of lines 201-213 have passed.
\<close>

record config =
  config_fractionBits :: "number option"
  config_totalBits :: "number option"
  config_useBigInt :: "bool option"

record format =
  fractionBits :: nat
  totalBits :: nat
  useBigInt :: bool

definition DEFAULT_FRACTION_BITS :: nat where "DEFAULT_FRACTION_BITS = 16"
definition DEFAULT_TOTAL_BITS :: nat where "DEFAULT_TOTAL_BITS = 32"
definition TWO_PI_Q16 :: int where "TWO_PI_Q16 = 411775"
definition PI_HALF_Q16 :: int where "PI_HALF_Q16 = 102944"

definition validate :: "config \<Rightarrow> error + format" where
  "validate cfg =
     (let fb = (case config_fractionBits cfg of None \<Rightarrow> Fin (of_nat DEFAULT_FRACTION_BITS) | Some x \<Rightarrow> x);
          tb = (case config_totalBits cfg of None \<Rightarrow> Fin (of_nat DEFAULT_TOTAL_BITS) | Some x \<Rightarrow> x)
      in if \<not> isInteger fb \<or> \<not> isInteger tb then Inl ConfigNotInteger
         else if num_le fb (Fin 0) then Inl ConfigFractionBits
         else if num_le tb fb then Inl ConfigTotalBits
         else if config_useBigInt cfg = Some False \<and> num_lt (Fin 32) tb then Inl ConfigUseBigInt
         else Inr \<lparr> fractionBits = (case fb of Fin q \<Rightarrow> nat \<lfloor>q\<rfloor> | _ \<Rightarrow> 0),
                    totalBits = (case tb of Fin q \<Rightarrow> nat \<lfloor>q\<rfloor> | _ \<Rightarrow> 0),
                    useBigInt = (case config_useBigInt cfg of None \<Rightarrow> num_lt (Fin 32) tb | Some u \<Rightarrow> u) \<rparr>)"

text \<open>
  \<^verbatim>\<open>wrapBigInt\<close> (lines 218-224) and \<^verbatim>\<open>wrapNumber\<close> (lines 227-234). \<open>totalBits\<close> is at
  least 2 in every format, so \<open>bits - 1n\<close> is not negative.
\<close>

definition wrapBigInt :: "format \<Rightarrow> int \<Rightarrow> int" where
  "wrapBigInt fmt value =
     (let bits = totalBits fmt;
          mask = push_bit bits 1 - 1;
          signBit = push_bit (bits - 1) 1;
          wrapped = value AND mask
      in if signBit \<le> wrapped then wrapped - push_bit bits 1 else wrapped)"

definition wrapNumber :: "format \<Rightarrow> number \<Rightarrow> error + number" where
  "wrapNumber fmt value =
     (if \<not> isFinite value \<or> \<not> isInteger value then Inl NotFiniteInteger
      else if totalBits fmt = 32 then Inr (or_zero value)
      else bindE (BigInt (Math_trunc value)) (\<lambda>b. Inr (Number (wrapBigInt fmt b))))"

text \<open>
  \<^verbatim>\<open>scaleQ16\<close> (lines 237-250), one definition for each branch on \<^verbatim>\<open>useBigInt\<close>.
\<close>

definition scaleQ16_bigint :: "format \<Rightarrow> number \<Rightarrow> error + int" where
  "scaleQ16_bigint fmt value =
     (let diff = int (fractionBits fmt) - int DEFAULT_FRACTION_BITS in
      bindE (BigInt value) (\<lambda>v0.
        let v1 = (if 0 < diff then push_bit (nat diff) v0 else v0);
            v2 = (if diff < 0 then drop_bit (nat (- diff)) v1 else v1)
        in Inr (wrapBigInt fmt v2)))"

definition scaleQ16_number :: "format \<Rightarrow> number \<Rightarrow> error + number" where
  "scaleQ16_number fmt value =
     (let diff = int (fractionBits fmt) - int DEFAULT_FRACTION_BITS in
      bindE (if 0 < diff then bindE (BigInt value) (\<lambda>b. Inr (Number (push_bit (nat diff) b)))
             else Inr value) (\<lambda>v1.
      bindE (if diff < 0 then bindE (BigInt value) (\<lambda>b. Inr (Number (drop_bit (nat (- diff)) b)))
             else Inr v1) (\<lambda>v2.
        wrapNumber fmt v2)))"

text \<open>
  The rescaled constants and table of lines 257-267 and 337-347. The module-level caches
  hold, for each key, the value computed here, so they are not part of the model.
\<close>

record 'a lut =
  TWO_PI :: 'a
  PI_HALF :: 'a
  sinLut :: "'a list"

fun mapE :: "('a \<Rightarrow> error + 'b) \<Rightarrow> 'a list \<Rightarrow> error + 'b list" where
  "mapE f [] = Inr []"
| "mapE f (x # xs) = bindE (f x) (\<lambda>y. bindE (mapE f xs) (\<lambda>ys. Inr (y # ys)))"

text \<open>
  Modelled from the spec: the table \<^verbatim>\<open>SIN_LUT_Q16\<close> of \<^verbatim>\<open>src/sin-lut-q16.ts\<close> is not among
  the sources. It is "an ordered, fixed-length sequence of scaled-integer sine samples" at 16
  fractional bits, so it is a parameter: the list of its samples, each an integer.
\<close>

type_synonym sin_lut_q16 = "int list"

definition LUT_SIZE :: "sin_lut_q16 \<Rightarrow> nat" where
  "LUT_SIZE SIN_LUT_Q16 = length SIN_LUT_Q16"

definition bigIntLut :: "sin_lut_q16 \<Rightarrow> format \<Rightarrow> error + int lut" where
  "bigIntLut SIN_LUT_Q16 fmt =
     bindE (scaleQ16_bigint fmt (Fin (of_int TWO_PI_Q16))) (\<lambda>tp.
     bindE (scaleQ16_bigint fmt (Fin (of_int PI_HALF_Q16))) (\<lambda>ph.
     bindE (mapE (\<lambda>v. scaleQ16_bigint fmt (Fin (of_int v))) SIN_LUT_Q16) (\<lambda>tbl.
       Inr \<lparr> TWO_PI = tp, PI_HALF = ph, sinLut = tbl \<rparr>)))"

definition numberLut :: "sin_lut_q16 \<Rightarrow> format \<Rightarrow> error + number lut" where
  "numberLut SIN_LUT_Q16 fmt =
     bindE (scaleQ16_number fmt (Fin (of_int TWO_PI_Q16))) (\<lambda>tp.
     bindE (scaleQ16_number fmt (Fin (of_int PI_HALF_Q16))) (\<lambda>ph.
     bindE (mapE (\<lambda>v. scaleQ16_number fmt (Fin (of_int v))) SIN_LUT_Q16) (\<lambda>tbl.
       Inr \<lparr> TWO_PI = tp, PI_HALF = ph, sinLut = tbl \<rparr>)))"

text \<open>
  The operation set \<^verbatim>\<open>createFixedPoint\<close> returns: the bigint-backed one of lines 279-323
  or the number-backed one of lines 360-456, with the format and the table it closes over.
\<close>

datatype ops = BigIntOps format "int lut" | NumberOps format "number lut"

fun ops_format :: "ops \<Rightarrow> format" where
  "ops_format (BigIntOps fmt c) = fmt"
| "ops_format (NumberOps fmt c) = fmt"

definition createFixedPoint :: "sin_lut_q16 \<Rightarrow> config \<Rightarrow> error + ops" where
  "createFixedPoint SIN_LUT_Q16 cfg =
     bindE (validate cfg) (\<lambda>fmt.
       if useBigInt fmt then bindE (bigIntLut SIN_LUT_Q16 fmt) (\<lambda>c. Inr (BigIntOps fmt c))
       else bindE (numberLut SIN_LUT_Q16 fmt) (\<lambda>c. Inr (NumberOps fmt c)))"

section \<open>The bigint-backed operation set (lines 252-324)\<close>

text \<open>
  An array read \<^verbatim>\<open>xs[i]\<close> outside \<open>0 \<le> i < xs.length\<close> is \<^verbatim>\<open>undefined\<close>: the value \<open>None\<close>.
\<close>

definition array_get :: "'a list \<Rightarrow> int \<Rightarrow> 'a option" where
  "array_get xs i = (if 0 \<le> i \<and> i < int (length xs) then Some (xs ! nat i) else None)"

definition ONE_bigint :: "format \<Rightarrow> int" where
  "ONE_bigint fmt = push_bit (fractionBits fmt) 1"

definition EPSILON_bigint :: int where
  "EPSILON_bigint = 1"

definition MAX_bigint :: "format \<Rightarrow> int" where
  "MAX_bigint fmt = push_bit (totalBits fmt - 1) 1 - 1"

definition MIN_bigint :: "format \<Rightarrow> int" where
  "MIN_bigint fmt = - push_bit (totalBits fmt - 1) 1"

text \<open>The local \<^verbatim>\<open>idx\<close> of \<^verbatim>\<open>sin\<close> (lines 271-273), and \<^verbatim>\<open>sin\<close> and \<^verbatim>\<open>cos\<close> themselves.\<close>

definition sin_idx_bigint :: "sin_lut_q16 \<Rightarrow> int lut \<Rightarrow> int \<Rightarrow> error + int" where
  "sin_idx_bigint SIN_LUT_Q16 c theta =
     bindE (bigint_rem theta (TWO_PI c)) (\<lambda>t0.
       let t = (if t0 < 0 then t0 + TWO_PI c else t0)
       in bigint_div (t * int (LUT_SIZE SIN_LUT_Q16)) (TWO_PI c))"

definition sin_bigint :: "sin_lut_q16 \<Rightarrow> int lut \<Rightarrow> int \<Rightarrow> error + int option" where
  "sin_bigint SIN_LUT_Q16 c theta =
     bindE (sin_idx_bigint SIN_LUT_Q16 c theta) (\<lambda>idx.
     bindE (bigint_rem idx (int (LUT_SIZE SIN_LUT_Q16))) (\<lambda>i.
       Inr (array_get (sinLut c) i)))"

definition cos_bigint :: "sin_lut_q16 \<Rightarrow> format \<Rightarrow> int lut \<Rightarrow> int \<Rightarrow> error + int option" where
  "cos_bigint SIN_LUT_Q16 fmt c theta = sin_bigint SIN_LUT_Q16 c (wrapBigInt fmt (theta + PI_HALF c))"

definition fromInt_bigint :: "format \<Rightarrow> number \<Rightarrow> error + int" where
  "fromInt_bigint fmt n = bindE (BigInt n) (\<lambda>b. Inr (wrapBigInt fmt (push_bit (fractionBits fmt) b)))"

definition fromFloat_bigint :: "format \<Rightarrow> number \<Rightarrow> error + int" where
  "fromFloat_bigint fmt f =
     bindE (BigInt (Math_round (num_mul f (Number (ONE_bigint fmt))))) (\<lambda>b. Inr (wrapBigInt fmt b))"

definition fromString_bigint :: "format \<Rightarrow> string \<Rightarrow> error + int" where
  "fromString_bigint fmt value =
     bindE (parseFixedPointString value (fractionBits fmt)) (\<lambda>b. Inr (wrapBigInt fmt b))"

definition toFloat_bigint :: "format \<Rightarrow> int \<Rightarrow> number" where
  "toFloat_bigint fmt val = num_div (Number val) (Number (ONE_bigint fmt))"

definition toInt_bigint :: "format \<Rightarrow> int \<Rightarrow> error + int" where
  "toInt_bigint fmt a = bigint_div a (ONE_bigint fmt)"

definition add_bigint :: "format \<Rightarrow> int \<Rightarrow> int \<Rightarrow> int" where
  "add_bigint fmt a b = wrapBigInt fmt (a + b)"

definition sub_bigint :: "format \<Rightarrow> int \<Rightarrow> int \<Rightarrow> int" where
  "sub_bigint fmt a b = wrapBigInt fmt (a - b)"

definition negate_bigint :: "format \<Rightarrow> int \<Rightarrow> int" where
  "negate_bigint fmt a = wrapBigInt fmt (- a)"

definition mul_bigint :: "format \<Rightarrow> int \<Rightarrow> int \<Rightarrow> int" where
  "mul_bigint fmt a b = wrapBigInt fmt (drop_bit (fractionBits fmt) (a * b))"

definition div_bigint :: "format \<Rightarrow> int \<Rightarrow> int \<Rightarrow> error + int" where
  "div_bigint fmt a b =
     (if b = 0 then Inl DivisionByZero
      else bindE (bigint_div (push_bit (fractionBits fmt) a) b) (\<lambda>q. Inr (wrapBigInt fmt q)))"

definition mod_bigint :: "format \<Rightarrow> int \<Rightarrow> int \<Rightarrow> error + int" where
  "mod_bigint fmt a b =
     (if b = 0 then Inl DivisionByZero
      else bindE (bigint_rem a b) (\<lambda>r. Inr (wrapBigInt fmt r)))"

definition abs_bigint :: "format \<Rightarrow> int \<Rightarrow> int" where
  "abs_bigint fmt a = (if a < 0 then wrapBigInt fmt (- a) else a)"

definition sqrt_bigint :: "format \<Rightarrow> int \<Rightarrow> (error + int) option" where
  "sqrt_bigint fmt a =
     (if a < 0 then Some (Inl SqrtOfNegative)
      else (let val = a * ONE_bigint fmt
            in case isqrt val of
                 None \<Rightarrow> None
               | Some (Inl e) \<Rightarrow> Some (Inl e)
               | Some (Inr res) \<Rightarrow> Some (Inr (wrapBigInt fmt res))))"

definition eq_bigint :: "int \<Rightarrow> int \<Rightarrow> bool" where "eq_bigint a b = (a = b)"
definition neq_bigint :: "int \<Rightarrow> int \<Rightarrow> bool" where "neq_bigint a b = (a \<noteq> b)"
definition gt_bigint :: "int \<Rightarrow> int \<Rightarrow> bool" where "gt_bigint a b = (b < a)"
definition gte_bigint :: "int \<Rightarrow> int \<Rightarrow> bool" where "gte_bigint a b = (b \<le> a)"
definition lt_bigint :: "int \<Rightarrow> int \<Rightarrow> bool" where "lt_bigint a b = (a < b)"
definition lte_bigint :: "int \<Rightarrow> int \<Rightarrow> bool" where "lte_bigint a b = (a \<le> b)"

section \<open>The number-backed operation set (lines 326-456)\<close>

definition assertInteger :: "number \<Rightarrow> error + unit" where
  "assertInteger value =
     (if \<not> isFinite value \<or> \<not> isInteger value then Inl OperandNotInteger else Inr ())"

text \<open>\<^verbatim>\<open>2 ** n\<close> for a bit count \<open>n\<close>, and the constants of lines 333-336.\<close>

definition pow2 :: "nat \<Rightarrow> number" where
  "pow2 n = fl (2 ^ n)"

definition ONE_number :: "format \<Rightarrow> number" where
  "ONE_number fmt = pow2 (fractionBits fmt)"

definition EPSILON_number :: number where
  "EPSILON_number = Fin 1"

definition MAX_number :: "format \<Rightarrow> number" where
  "MAX_number fmt = num_sub (pow2 (totalBits fmt - 1)) (Fin 1)"

definition MIN_number :: "format \<Rightarrow> number" where
  "MIN_number fmt = num_neg (pow2 (totalBits fmt - 1))"

text \<open>An array read with a number as the index: \<^verbatim>\<open>undefined\<close> unless it is an integer in range.\<close>

definition array_get_number :: "'a list \<Rightarrow> number \<Rightarrow> 'a option" where
  "array_get_number xs i = (case BigInt i of Inl e \<Rightarrow> None | Inr k \<Rightarrow> array_get xs k)"

definition sin_idx_number :: "sin_lut_q16 \<Rightarrow> number lut \<Rightarrow> number \<Rightarrow> error + number" where
  "sin_idx_number SIN_LUT_Q16 c theta =
     bindE (assertInteger theta) (\<lambda>_.
       let t0 = num_rem theta (TWO_PI c);
           t = (if num_lt t0 (Fin 0) then num_add t0 (TWO_PI c) else t0)
       in bindE (BigInt t) (\<lambda>bt.
          bindE (BigInt (TWO_PI c)) (\<lambda>btp.
          bindE (bigint_div (bt * int (LUT_SIZE SIN_LUT_Q16)) btp) (\<lambda>q. Inr (Number q)))))"

definition sin_number :: "sin_lut_q16 \<Rightarrow> number lut \<Rightarrow> number \<Rightarrow> error + number option" where
  "sin_number SIN_LUT_Q16 c theta =
     bindE (sin_idx_number SIN_LUT_Q16 c theta) (\<lambda>idx.
       Inr (array_get_number (sinLut c) (num_rem idx (Fin (of_nat (LUT_SIZE SIN_LUT_Q16))))))"

definition cos_number :: "sin_lut_q16 \<Rightarrow> format \<Rightarrow> number lut \<Rightarrow> number \<Rightarrow> error + number option" where
  "cos_number SIN_LUT_Q16 fmt c theta =
     bindE (wrapNumber fmt (num_add theta (PI_HALF c))) (\<lambda>w. sin_number SIN_LUT_Q16 c w)"

definition fromInt_number :: "format \<Rightarrow> number \<Rightarrow> error + number" where
  "fromInt_number fmt n =
     bindE (assertInteger n) (\<lambda>_. wrapNumber fmt (num_mul n (ONE_number fmt)))"

definition fromFloat_number :: "format \<Rightarrow> number \<Rightarrow> error + number" where
  "fromFloat_number fmt f = wrapNumber fmt (Math_round (num_mul f (ONE_number fmt)))"

definition fromString_number :: "format \<Rightarrow> string \<Rightarrow> error + number" where
  "fromString_number fmt value =
     bindE (parseFixedPointString value (fractionBits fmt)) (\<lambda>b. wrapNumber fmt (Number b))"

definition toFloat_number :: "format \<Rightarrow> number \<Rightarrow> number" where
  "toFloat_number fmt val = num_div val (ONE_number fmt)"

definition toInt_number :: "format \<Rightarrow> number \<Rightarrow> number" where
  "toInt_number fmt a = Math_trunc (num_div a (ONE_number fmt))"

definition add_number :: "format \<Rightarrow> number \<Rightarrow> number \<Rightarrow> error + number" where
  "add_number fmt a b =
     bindE (assertInteger a) (\<lambda>_. bindE (assertInteger b) (\<lambda>_. wrapNumber fmt (num_add a b)))"

definition sub_number :: "format \<Rightarrow> number \<Rightarrow> number \<Rightarrow> error + number" where
  "sub_number fmt a b =
     bindE (assertInteger a) (\<lambda>_. bindE (assertInteger b) (\<lambda>_. wrapNumber fmt (num_sub a b)))"

definition negate_number :: "format \<Rightarrow> number \<Rightarrow> error + number" where
  "negate_number fmt a = bindE (assertInteger a) (\<lambda>_. wrapNumber fmt (num_neg a))"

definition mul_number :: "format \<Rightarrow> number \<Rightarrow> number \<Rightarrow> error + number" where
  "mul_number fmt a b =
     bindE (assertInteger a) (\<lambda>_. bindE (assertInteger b) (\<lambda>_.
     bindE (BigInt a) (\<lambda>ba. bindE (BigInt b) (\<lambda>bb.
       let res = drop_bit (fractionBits fmt) (ba * bb)
       in wrapNumber fmt (Number res)))))"

definition div_number :: "format \<Rightarrow> number \<Rightarrow> number \<Rightarrow> error + number" where
  "div_number fmt a b =
     bindE (assertInteger a) (\<lambda>_. bindE (assertInteger b) (\<lambda>_.
       if num_eq b (Fin 0) then Inl DivisionByZero
       else bindE (BigInt a) (\<lambda>ba. bindE (BigInt b) (\<lambda>bb.
            bindE (bigint_div (push_bit (fractionBits fmt) ba) bb) (\<lambda>res.
              wrapNumber fmt (Number res))))))"

definition mod_number :: "format \<Rightarrow> number \<Rightarrow> number \<Rightarrow> error + number" where
  "mod_number fmt a b =
     bindE (assertInteger a) (\<lambda>_. bindE (assertInteger b) (\<lambda>_.
       if num_eq b (Fin 0) then Inl DivisionByZero
       else bindE (BigInt a) (\<lambda>ba. bindE (BigInt b) (\<lambda>bb.
            bindE (bigint_rem ba bb) (\<lambda>res.
              wrapNumber fmt (Number res))))))"

definition abs_number :: "format \<Rightarrow> number \<Rightarrow> error + number" where
  "abs_number fmt a =
     bindE (assertInteger a) (\<lambda>_.
       if num_lt a (Fin 0) then wrapNumber fmt (num_neg a) else Inr a)"

definition sqrt_number :: "format \<Rightarrow> number \<Rightarrow> (error + number) option" where
  "sqrt_number fmt a =
     (case assertInteger a of
        Inl e \<Rightarrow> Some (Inl e)
      | Inr _ \<Rightarrow>
          if num_lt a (Fin 0) then Some (Inl SqrtOfNegative)
          else (case bindE (BigInt a) (\<lambda>ba. bindE (BigInt (ONE_number fmt)) (\<lambda>bo. Inr (ba * bo))) of
                  Inl e \<Rightarrow> Some (Inl e)
                | Inr val \<Rightarrow>
                    (case isqrt val of
                       None \<Rightarrow> None
                     | Some (Inl e) \<Rightarrow> Some (Inl e)
                     | Some (Inr res) \<Rightarrow> Some (wrapNumber fmt (Number res)))))"

definition compare_number :: "(number \<Rightarrow> number \<Rightarrow> bool) \<Rightarrow> number \<Rightarrow> number \<Rightarrow> error + bool" where
  \<comment> \<open>the body shared by the six comparisons of lines 426-455\<close>
  "compare_number rel a b =
     bindE (assertInteger a) (\<lambda>_. bindE (assertInteger b) (\<lambda>_. Inr (rel a b)))"

definition eq_number :: "number \<Rightarrow> number \<Rightarrow> error + bool" where
  "eq_number = compare_number num_eq"

definition neq_number :: "number \<Rightarrow> number \<Rightarrow> error + bool" where
  "neq_number = compare_number (\<lambda>a b. \<not> num_eq a b)"

definition gt_number :: "number \<Rightarrow> number \<Rightarrow> error + bool" where
  "gt_number = compare_number (\<lambda>a b. num_lt b a)"

definition gte_number :: "number \<Rightarrow> number \<Rightarrow> error + bool" where
  "gte_number = compare_number (\<lambda>a b. num_le b a)"

definition lt_number :: "number \<Rightarrow> number \<Rightarrow> error + bool" where
  "lt_number = compare_number num_lt"

definition lte_number :: "number \<Rightarrow> number \<Rightarrow> error + bool" where
  "lte_number = compare_number num_le"

section \<open>The range of a format\<close>

text \<open>
  A scaled integer is in range when it lies within \<open>[MIN, MAX]\<close>; a number is in range when
  it is such an integer.
\<close>

definition in_range :: "format \<Rightarrow> int \<Rightarrow> bool" where
  "in_range fmt v = (MIN_bigint fmt \<le> v \<and> v \<le> MAX_bigint fmt)"

definition in_range_number :: "format \<Rightarrow> number \<Rightarrow> bool" where
  "in_range_number fmt x = (case BigInt x of Inl e \<Rightarrow> False | Inr v \<Rightarrow> in_range fmt v)"

section \<open>The rounding the specification names\<close>

text \<open>
  From the words of the specification, for \<^verbatim>\<open>fromString\<close>: the integer nearest to \<open>q\<close>, a tie
  going to the one farther from zero.
\<close>

text \<open>
  The exact value of a decimal literal with the sign \<open>sign\<close>, the integer digits \<open>ds\<close> and
  the fraction digits \<open>fs\<close>.
\<close>

definition decimal_value :: "int \<Rightarrow> string \<Rightarrow> string \<Rightarrow> rat" where
  "decimal_value sign ds fs =
     of_int sign * (of_int (BigInt_of_digits ds) + of_int (BigInt_of_digits fs) / 10 ^ length fs)"

definition round_half_away_from_zero :: "rat \<Rightarrow> int" where
  "round_half_away_from_zero q = (if q < 0 then - \<lfloor>\<bar>q\<bar> + 1 / 2\<rfloor> else \<lfloor>\<bar>q\<bar> + 1 / 2\<rfloor>)"

section \<open>Concrete inputs\<close>

text \<open>
  A four-sample sine table at 16 fractional bits, the default configuration and explicit
  ones, on which the definitions are run.
\<close>

definition sample_lut :: sin_lut_q16 where
  "sample_lut = [0, 65536, 0, - 65536]"

definition default_config :: config where
  "default_config =
     \<lparr> config_fractionBits = None, config_totalBits = None, config_useBigInt = None \<rparr>"

definition config_of :: "nat \<Rightarrow> nat \<Rightarrow> bool option \<Rightarrow> config" where
  "config_of f t u =
     \<lparr> config_fractionBits = Some (Fin (of_nat f)), config_totalBits = Some (Fin (of_nat t)),
       config_useBigInt = u \<rparr>"

definition format_of :: "nat \<Rightarrow> nat \<Rightarrow> bool \<Rightarrow> format" where
  "format_of f t u = \<lparr> fractionBits = f, totalBits = t, useBigInt = u \<rparr>"

section \<open>The wrap to \<open>totalBits\<close>\<close>

lemma wrapBigInt_mod:
  "wrapBigInt fmt v =
     (if 2 ^ (totalBits fmt - 1) \<le> v mod 2 ^ totalBits fmt
      then v mod 2 ^ totalBits fmt - 2 ^ totalBits fmt else v mod 2 ^ totalBits fmt)"
proof -
  have "v AND (push_bit (totalBits fmt) 1 - 1) = v mod 2 ^ totalBits fmt"
    by (simp add: push_bit_eq_mult flip: mask_eq_exp_minus_1 take_bit_eq_mask take_bit_eq_mod)
  then show ?thesis
    by (simp add: wrapBigInt_def Let_def push_bit_eq_mult)
qed

lemma pow_split: "0 < (t::nat) \<Longrightarrow> (2::int) ^ t = 2 * 2 ^ (t - 1)"
  by (cases t) simp_all

lemma wrapBigInt_cases:
  assumes "0 < totalBits fmt"
  obtains m where "0 \<le> m" "m < 2 ^ (totalBits fmt - 1)" "wrapBigInt fmt v = m"
      "v mod 2 ^ totalBits fmt = m"
  | m where "2 ^ (totalBits fmt - 1) \<le> m" "m < 2 * 2 ^ (totalBits fmt - 1)"
      "wrapBigInt fmt v = m - 2 * 2 ^ (totalBits fmt - 1)" "v mod 2 ^ totalBits fmt = m"
proof -
  define M where "M = v mod 2 ^ totalBits fmt"
  have T: "(2::int) ^ totalBits fmt = 2 * 2 ^ (totalBits fmt - 1)"
    using assms by (rule pow_split)
  have m: "0 \<le> M" "M < 2 ^ totalBits fmt" by (simp_all add: M_def)
  have w: "wrapBigInt fmt v = (if 2 ^ (totalBits fmt - 1) \<le> M then M - 2 ^ totalBits fmt else M)"
    unfolding M_def by (rule wrapBigInt_mod)
  show thesis
  proof (cases "2 ^ (totalBits fmt - 1) \<le> M")
    case True
    show thesis
      by (rule that(2) [of M]) (use True m w T M_def in auto)
  next
    case False
    show thesis
      by (rule that(1) [of M]) (use False m w T M_def in auto)
  qed
qed

lemma wrapBigInt_range:
  assumes "0 < totalBits fmt"
  shows "MIN_bigint fmt \<le> wrapBigInt fmt v" and "wrapBigInt fmt v \<le> MAX_bigint fmt"
  by (rule wrapBigInt_cases [OF assms, of v]; simp add: MIN_bigint_def MAX_bigint_def push_bit_eq_mult)+

lemma wrapBigInt_id:
  assumes "0 < totalBits fmt" "MIN_bigint fmt \<le> v" "v \<le> MAX_bigint fmt"
  shows "wrapBigInt fmt v = v"
proof -
  let ?t = "totalBits fmt"
  have p: "(2::int) ^ ?t = 2 * 2 ^ (?t - 1)" using assms(1) by (rule pow_split)
  have r: "- (2 ^ (?t - 1)) \<le> v" "v < 2 ^ (?t - 1)"
    using assms(2,3) by (simp_all add: MIN_bigint_def MAX_bigint_def push_bit_eq_mult)
  show ?thesis
  proof (cases "0 \<le> v")
    case True
    then have "v mod 2 ^ ?t = v" using r p by (intro mod_pos_pos_trivial) simp_all
    then show ?thesis using r by (simp add: wrapBigInt_mod)
  next
    case False
    have "v mod 2 ^ ?t = (v + 2 ^ ?t) mod 2 ^ ?t" by simp
    also have "\<dots> = v + 2 ^ ?t" using False r p by (intro mod_pos_pos_trivial) simp_all
    finally have "v mod 2 ^ ?t = v + 2 ^ ?t" .
    then show ?thesis using False r p by (simp add: wrapBigInt_mod)
  qed
qed

lemma wrapBigInt_signed:
  assumes "0 < totalBits fmt"
  shows "wrapBigInt fmt v = signed_take_bit (totalBits fmt - 1) v"
proof -
  obtain n where t: "totalBits fmt = Suc n" using assms by (cases "totalBits fmt") auto
  define M where "M = v mod 2 ^ Suc n"
  define P :: int where "P = 2 ^ n"
  have m: "0 \<le> M" "M < 2 * P" by (simp_all add: M_def P_def)
  have s: "signed_take_bit n v = (v + P) mod (2 * P) - P"
    by (simp add: signed_take_bit_eq_take_bit_shift take_bit_eq_mod P_def)
  have e: "(v + P) mod (2 * P) = (M + P) mod (2 * P)"
    by (simp add: mod_add_left_eq M_def P_def)
  have w: "wrapBigInt fmt v = (if P \<le> M then M - 2 * P else M)"
    by (simp add: wrapBigInt_mod t M_def P_def)
  show ?thesis
  proof (cases "P \<le> M")
    case True
    have "(M + P) mod (2 * P) = (M + P - 2 * P) mod (2 * P)"
      by (metis minus_mod_self2)
    also have "\<dots> = M + P - 2 * P" using True m by (intro mod_pos_pos_trivial) simp_all
    finally show ?thesis using True by (simp add: w t s e)
  next
    case False
    have "(M + P) mod (2 * P) = M + P" using False m by (intro mod_pos_pos_trivial) simp_all
    then show ?thesis using False by (simp add: w t s e)
  qed
qed

section \<open>Numbers that are exact\<close>

lemma ilog2_le:
  assumes "0 < q"
  shows "2 powi (ilog2 q) \<le> q"
proof (cases "1 \<le> q")
  case True
  then have f: "0 < \<lfloor>q\<rfloor>" by simp
  have b: "1 \<le> bitlen \<lfloor>q\<rfloor>" using f by (simp add: bitlen_alt_def)
  have "(2::int) ^ nat (bitlen \<lfloor>q\<rfloor> - 1) \<le> \<lfloor>q\<rfloor>" using bitlen_bounds [OF f] by simp
  then have "(of_int ((2::int) ^ nat (bitlen \<lfloor>q\<rfloor> - 1)) :: rat) \<le> of_int \<lfloor>q\<rfloor>"
    by (simp only: of_int_le_iff)
  also have "\<dots> \<le> q" by simp
  finally have "(2::rat) ^ nat (bitlen \<lfloor>q\<rfloor> - 1) \<le> q" by simp
  moreover have "(2::rat) powi (bitlen \<lfloor>q\<rfloor> - 1) = 2 ^ nat (bitlen \<lfloor>q\<rfloor> - 1)"
    using b by (simp add: power_int_def)
  ultimately show ?thesis using True by (simp add: ilog2_def)
next
  case False
  define c where "c = \<lceil>1 / q\<rceil>"
  have q1: "1 < 1 / q" using False assms by simp
  then have c2: "2 \<le> c" unfolding c_def by linarith
  then have c1: "0 < c - 1" by simp
  have "c - 1 < 2 ^ nat (bitlen (c - 1))" using bitlen_bounds [OF c1] by simp
  then have "c \<le> 2 ^ nat (bitlen (c - 1))" by simp
  then have "(of_int c :: rat) \<le> 2 ^ nat (bitlen (c - 1))" by simp
  moreover have "1 / q \<le> of_int c" unfolding c_def by simp
  ultimately have "1 / q \<le> 2 ^ nat (bitlen (c - 1))" by (rule order_trans [rotated])
  then have "1 / 2 ^ nat (bitlen (c - 1)) \<le> q"
    using assms by (simp add: field_simps)
  moreover have "(2::rat) powi (- bitlen (c - 1)) = 1 / 2 ^ nat (bitlen (c - 1))"
    using bitlen_nonneg [of "c - 1"] by (simp add: power_int_def field_simps)
  ultimately show ?thesis using False by (simp add: ilog2_def c_def)
qed

lemma roundTiesToEven_of_int [simp]: "roundTiesToEven (of_int z) = z"
  by (simp add: roundTiesToEven_def)

lemma fl_dyadic:
  assumes m: "\<bar>m\<bar> < 2 ^ 53" and e: "- 1074 \<le> e" and b: "\<bar>of_int m\<bar> * 2 powi e < (2 ^ 1024 :: rat)"
  shows "fl (of_int m * 2 powi e) = Fin (of_int m * 2 powi e)"
proof (cases "m = 0")
  case True
  then show ?thesis by (simp add: fl_def)
next
  case False
  define q :: rat where "q = of_int m * 2 powi e"
  have p: "(0::rat) < 2 powi e" by simp
  have q0: "q \<noteq> 0" using False by (simp add: q_def)
  have aq: "\<bar>q\<bar> = of_int \<bar>m\<bar> * 2 powi e" by (simp add: q_def abs_mult)
  define k where "k = ilog2 \<bar>q\<bar>"
  have "2 powi k \<le> \<bar>q\<bar>" unfolding k_def using q0 by (intro ilog2_le) simp
  also have "\<bar>q\<bar> < 2 ^ 53 * 2 powi e"
  proof -
    have "(of_int \<bar>m\<bar> :: rat) < of_int (2 ^ 53)" using m by (simp only: of_int_less_iff)
    then show ?thesis unfolding aq using p by simp
  qed
  also have "(2 ^ 53 * 2 powi e :: rat) = 2 powi (53 + e)"
    by (simp add: power_int_add)
  finally have "(2::rat) powi k < 2 powi (53 + e)" .
  then have k: "k < 53 + e"
    using power_int_increasing [of "53 + e" k "2::rat"] by (cases "k < 53 + e") auto
  define E where "E = max (k - 52) (- 1074)"
  have E: "E \<le> e" using k e by (simp add: E_def)
  have d: "\<bar>q\<bar> / 2 powi E = of_int (\<bar>m\<bar> * 2 ^ nat (e - E))"
  proof -
    have "(2::rat) powi e = 2 powi (e - E) * 2 powi E"
      by (simp flip: power_int_add)
    moreover have "(2::rat) powi (e - E) = 2 ^ nat (e - E)" using E by (simp add: power_int_def)
    ultimately show ?thesis by (simp add: aq)
  qed
  have r: "of_int (\<bar>m\<bar> * 2 ^ nat (e - E)) * 2 powi E = \<bar>q\<bar>"
    using d by (simp add: field_simps)
  have nb: "\<not> (2 ^ 1024 :: rat) \<le> \<bar>q\<bar>" using b by (simp add: aq)
  have "fl q = Fin (sgn q * \<bar>q\<bar>)"
    using q0 nb unfolding fl_def Let_def k_def [symmetric] E_def [symmetric] d
    by (simp only: roundTiesToEven_of_int r if_False)
  moreover have "sgn q * \<bar>q\<bar> = q" by (simp add: sgn_mult_abs)
  ultimately show ?thesis by (simp add: q_def)
qed

lemma fl_int:
  assumes "\<bar>x\<bar> < 2 ^ 53"
  shows "fl (of_int x) = Fin (of_int x)"
proof -
  have "(of_int \<bar>x\<bar> :: rat) < 2 ^ 53" using assms by simp
  also have "(2 ^ 53 :: rat) < 2 ^ 1024" by simp
  finally have "\<bar>of_int x\<bar> * 2 powi 0 < (2 ^ 1024 :: rat)" by simp
  from fl_dyadic [OF assms _ this] show ?thesis by simp
qed

lemma Number_exact: "\<bar>x\<bar> < 2 ^ 53 \<Longrightarrow> Number x = Fin (of_int x)"
  by (simp add: Number_def fl_int)

lemma fl_int_div_pow2:
  assumes "\<bar>x\<bar> < 2 ^ 53" and "n \<le> 1074"
  shows "fl (of_int x / 2 ^ n) = Fin (of_int x / 2 ^ n)"
proof -
  have p: "(2::rat) powi (- int n) = 1 / 2 ^ n"
    by (simp add: power_int_def field_simps)
  have "(of_int \<bar>x\<bar> :: rat) < 2 ^ 53" using assms(1) by simp
  also have "(2 ^ 53 :: rat) < 2 ^ 1024" by simp
  finally have "(of_int \<bar>x\<bar> :: rat) < 2 ^ 1024" .
  moreover have "(of_int \<bar>x\<bar> :: rat) / 2 ^ n \<le> of_int \<bar>x\<bar>"
  proof -
    have "(of_int \<bar>x\<bar> :: rat) * 1 \<le> of_int \<bar>x\<bar> * 2 ^ n"
      by (intro mult_left_mono) simp_all
    then show ?thesis by (simp add: field_simps)
  qed
  ultimately have "\<bar>of_int x\<bar> * 2 powi (- int n) < (2 ^ 1024 :: rat)"
    by (simp add: p)
  from fl_dyadic [OF assms(1) _ this] assms(2) show ?thesis by (simp add: p)
qed

lemma pow2_exact:
  assumes "n < 53"
  shows "pow2 n = Fin (2 ^ n)"
proof -
  have "(2::int) ^ n < 2 ^ 53" using assms by (intro power_strict_increasing) simp_all
  then have "\<bar>(2::int) ^ n\<bar> < 2 ^ 53" by simp
  from fl_int [OF this] show ?thesis by (simp add: pow2_def)
qed

lemma trunc_of_int [simp]: "trunc (of_int v) = v"
  by (simp add: trunc_def)

lemma isInteger_of_int [simp]: "isInteger (Fin (of_int v))"
  by simp

lemma finite_integer_cases:
  assumes "isFinite x" "isInteger x"
  obtains v where "x = Fin (of_int v)"
proof (cases x)
  case (Fin q)
  with assms(2) have "x = Fin (of_int \<lfloor>q\<rfloor>)" by auto
  then show thesis by (rule that)
qed (use assms in simp_all)

lemma BigInt_of_int [simp]: "BigInt (Fin (of_int v)) = Inr v"
  by simp

lemma assertInteger_of_int [simp]: "assertInteger (Fin (of_int v)) = Inr ()"
  by (simp add: assertInteger_def)

lemma bindE_Inr [simp]: "bindE (Inr x) f = f x"
  by (simp add: bindE_def)

lemma bindE_Inl [simp]: "bindE (Inl e) f = Inl e"
  by (simp add: bindE_def)

lemma bindE_eq_Inr: "bindE m f = Inr y \<longleftrightarrow> (\<exists>x. m = Inr x \<and> f x = Inr y)"
  by (cases m) simp_all

lemma wrapBigInt_abs:
  assumes "0 < totalBits fmt" "totalBits fmt \<le> 32"
  shows "\<bar>wrapBigInt fmt v\<bar> < 2 ^ 53"
proof -
  have "(2::int) ^ (totalBits fmt - 1) \<le> 2 ^ 31"
    using assms by (intro power_increasing) simp_all
  with wrapBigInt_range [OF assms(1), of v] show ?thesis
    by (simp add: MIN_bigint_def MAX_bigint_def push_bit_eq_mult)
qed

lemma wrapNumber_int:
  assumes "0 < totalBits fmt" "totalBits fmt \<le> 32"
  shows "wrapNumber fmt (Fin (of_int v)) = Inr (Fin (of_int (wrapBigInt fmt v)))"
proof (cases "totalBits fmt = 32")
  case True
  have "sint (word_of_int v :: 32 word) = signed_take_bit 31 v"
    by (simp add: sint_sbintrunc')
  also have "\<dots> = wrapBigInt fmt v" using True by (simp add: wrapBigInt_signed)
  finally show ?thesis using True by (simp add: wrapNumber_def)
next
  case False
  then show ?thesis
    using Number_exact [OF wrapBigInt_abs [OF assms, of v]] by (simp add: wrapNumber_def)
qed

lemma wrapNumber_Inr:
  assumes "0 < totalBits fmt" "totalBits fmt \<le> 32" "wrapNumber fmt x = Inr y"
  obtains v where "x = Fin (of_int v)" "y = Fin (of_int (wrapBigInt fmt v))"
proof -
  from assms(3) have "isFinite x" "isInteger x"
    by (auto simp: wrapNumber_def split: if_splits)
  then obtain v where x: "x = Fin (of_int v)" by (rule finite_integer_cases)
  with assms wrapNumber_int [OF assms(1,2), of v] have "y = Fin (of_int (wrapBigInt fmt v))" by simp
  with x show thesis by (rule that)
qed

section \<open>Numbers that are rounded\<close>

lemma div_mult_le_self:
  fixes n x :: int
  assumes "0 < x"
  shows "x * (n div x) \<le> n"
proof -
  have "n = x * (n div x) + n mod x" by simp
  moreover have "0 \<le> n mod x" using assms by simp
  ultimately show ?thesis by linarith
qed

lemma roundTiesToEven_divide:
  assumes "0 < d"
  shows "roundTiesToEven (of_int a / of_int d) =
     (if 2 * (a mod d) < d then a div d
      else if d < 2 * (a mod d) then a div d + 1
      else if even (a div d) then a div d else a div d + 1)"
proof -
  have f: "\<lfloor>(of_int a :: rat) / of_int d\<rfloor> = a div d" by (rule floor_divide_of_int_eq)
  have "(of_int a :: rat) = of_int (d * (a div d) + a mod d)" by simp
  also have "\<dots> = of_int d * of_int (a div d) + of_int (a mod d)" by (simp only: of_int_add of_int_mult)
  finally have "(of_int a :: rat) / of_int d = (of_int d * of_int (a div d) + of_int (a mod d)) / of_int d"
    by simp
  also have "\<dots> = of_int (a div d) + of_int (a mod d) / of_int d"
    using assms by (simp add: add_divide_distrib)
  finally have "(of_int a :: rat) / of_int d = of_int (a div d) + of_int (a mod d) / of_int d" .
  then have g: "(of_int a :: rat) / of_int d - of_int (a div d) = of_int (a mod d) / of_int d"
    by simp
  have h1: "(of_int (a mod d) / of_int d < (1 / 2 :: rat)) = (2 * (a mod d) < d)"
  proof -
    have "(of_int (a mod d) / of_int d < (1 / 2 :: rat)) = ((of_int (2 * (a mod d)) :: rat) < of_int d)"
      using assms by (simp add: field_simps)
    then show ?thesis by (simp only: of_int_less_iff)
  qed
  have h2: "((1 / 2 :: rat) < of_int (a mod d) / of_int d) = (d < 2 * (a mod d))"
  proof -
    have "((1 / 2 :: rat) < of_int (a mod d) / of_int d) = ((of_int d :: rat) < of_int (2 * (a mod d)))"
      using assms by (simp add: field_simps)
    then show ?thesis by (simp only: of_int_less_iff)
  qed
  show ?thesis
    unfolding roundTiesToEven_def Let_def f g h1 h2 by (rule refl)
qed

lemma ilog2_of_int:
  assumes "1 \<le> x"
  shows "ilog2 (of_int x) = bitlen x - 1"
  using assms by (simp add: ilog2_def)

lemma fl_int_large:
  assumes b: "bitlen \<bar>x\<bar> = 53 + int k" and k: "0 < k" "k \<le> 900"
  shows "fl (of_int x) =
     Fin (of_int (sgn x * (roundTiesToEven (of_int \<bar>x\<bar> / of_int (2 ^ k)) * 2 ^ k)))"
proof -
  have x0: "0 < \<bar>x\<bar>" using b by (cases "x = 0") simp_all
  then have x1: "1 \<le> \<bar>x\<bar>" by simp
  have xb: "\<bar>x\<bar> < 2 ^ (53 + k)"
    using bitlen_bounds [OF x0] b by (simp add: nat_add_distrib)
  have q0: "(of_int x :: rat) \<noteq> 0" using x0 by simp
  have il: "ilog2 (of_int \<bar>x\<bar>) = 52 + int k"
    using ilog2_of_int [OF x1] b by simp
  have e: "max (ilog2 (of_int \<bar>x\<bar>) - 52) (- 1074) = int k" by (simp only: il)
  have p: "(2::rat) powi (int k) = of_int (2 ^ k)" by simp
  define n where "n = roundTiesToEven (of_int \<bar>x\<bar> / of_int (2 ^ k))"
  have d: "(0::int) < 2 ^ k" by simp
  have "n \<le> \<bar>x\<bar> div 2 ^ k + 1"
    unfolding n_def roundTiesToEven_divide [OF d] by simp
  moreover have "\<bar>x\<bar> div 2 ^ k < 2 ^ 53"
  proof -
    have "\<bar>x\<bar> < 2 ^ k * 2 ^ 53" using xb by (simp add: power_add)
    moreover have "2 ^ k * (\<bar>x\<bar> div 2 ^ k) \<le> \<bar>x\<bar>" using d by (rule div_mult_le_self)
    ultimately have "2 ^ k * (\<bar>x\<bar> div 2 ^ k) < 2 ^ k * (2 ^ 53 :: int)" by linarith
    then show ?thesis using d by (simp only: mult_less_cancel_left_pos)
  qed
  ultimately have nb: "n \<le> 2 ^ 53" by simp
  have "n * 2 ^ k \<le> 2 ^ 53 * 2 ^ k" using nb by (intro mult_right_mono) simp_all
  also have "\<dots> = (2::int) ^ (53 + k)" by (simp add: power_add)
  also have "\<dots> < 2 ^ 1024" using k by (intro power_strict_increasing) simp_all
  finally have "(of_int (n * 2 ^ k) :: rat) < of_int (2 ^ 1024)" by (simp only: of_int_less_iff)
  then have nr: "\<not> (2 ^ 1024 :: rat) \<le> of_int n * of_int (2 ^ k)" by simp
  have s: "sgn (of_int x :: rat) = of_int (sgn x)" by (simp add: sgn_if)
  have "fl (of_int x) = Fin (sgn (of_int x) * (of_int n * of_int (2 ^ k)))"
    unfolding fl_def Let_def
    unfolding of_int_abs [symmetric]
    unfolding e p n_def [symmetric]
    using q0 nr by (simp only: if_False)
  then show ?thesis by (simp only: s n_def of_int_mult)
qed

lemma Number_large:
  assumes "bitlen \<bar>x\<bar> = 53 + int k" "0 < k" "k \<le> 900"
  shows "Number x =
     Fin (of_int (sgn x *
       ((if 2 * (\<bar>x\<bar> mod 2 ^ k) < 2 ^ k then \<bar>x\<bar> div 2 ^ k
         else if 2 ^ k < 2 * (\<bar>x\<bar> mod 2 ^ k) then \<bar>x\<bar> div 2 ^ k + 1
         else if even (\<bar>x\<bar> div 2 ^ k) then \<bar>x\<bar> div 2 ^ k else \<bar>x\<bar> div 2 ^ k + 1) * 2 ^ k)))"
proof -
  have d: "(0::int) < 2 ^ k" by simp
  show ?thesis
    unfolding Number_def fl_int_large [OF assms] roundTiesToEven_divide [OF d] by (rule refl)
qed

section \<open>Formats, constants and wrap-around\<close>

lemma integer_cases:
  assumes "isInteger x"
  obtains v where "x = Fin (of_int v)"
proof (cases x)
  case (Fin q)
  with assms have "x = Fin (of_int \<lfloor>q\<rfloor>)" by auto
  then show thesis by (rule that)
qed (use assms in simp_all)

lemma validate_Inr:
  assumes "validate cfg = Inr fmt"
  shows "0 < fractionBits fmt" and "fractionBits fmt < totalBits fmt"
    and "\<not> useBigInt fmt \<Longrightarrow> totalBits fmt \<le> 32"
proof -
  define fb where "fb = (case config_fractionBits cfg of None \<Rightarrow> Fin (of_nat DEFAULT_FRACTION_BITS) | Some x \<Rightarrow> x)"
  define tb where "tb = (case config_totalBits cfg of None \<Rightarrow> Fin (of_nat DEFAULT_TOTAL_BITS) | Some x \<Rightarrow> x)"
  from assms have c: "isInteger fb" "isInteger tb" "\<not> num_le fb (Fin 0)" "\<not> num_le tb fb"
      "\<not> (config_useBigInt cfg = Some False \<and> num_lt (Fin 32) tb)"
    and f: "fmt = \<lparr> fractionBits = (case fb of Fin q \<Rightarrow> nat \<lfloor>q\<rfloor> | _ \<Rightarrow> 0),
                    totalBits = (case tb of Fin q \<Rightarrow> nat \<lfloor>q\<rfloor> | _ \<Rightarrow> 0),
                    useBigInt = (case config_useBigInt cfg of None \<Rightarrow> num_lt (Fin 32) tb | Some u \<Rightarrow> u) \<rparr>"
    unfolding validate_def Let_def fb_def [symmetric] tb_def [symmetric]
    by (auto split: if_splits)
  from c(1) obtain a where a: "fb = Fin (of_int a)" by (rule integer_cases)
  from c(2) obtain b where b: "tb = Fin (of_int b)" by (rule integer_cases)
  from c(3) a have a0: "0 < a" by (simp add: num_le_def)
  from c(4) a b have ab: "a < b" by (simp add: num_le_def)
  show "0 < fractionBits fmt" using a0 by (simp add: f a)
  show "fractionBits fmt < totalBits fmt" using a0 ab by (simp add: f a b)
  show "totalBits fmt \<le> 32" if "\<not> useBigInt fmt"
    using that c(5) by (cases "config_useBigInt cfg") (auto simp: f b)
qed

lemma validate_config_of:
  assumes "0 < f" "f < t" "u = Some False \<longrightarrow> t \<le> 32"
  shows "validate (config_of f t u) = Inr (format_of f t (case u of None \<Rightarrow> 32 < t | Some b \<Rightarrow> b))"
  using assms by (cases u) (auto simp: validate_def config_of_def format_of_def num_le_def Let_def)

lemma createFixedPoint_BigIntOps:
  assumes "createFixedPoint SIN_LUT_Q16 cfg = Inr (BigIntOps fmt c)"
  shows "validate cfg = Inr fmt" and "useBigInt fmt" and "bigIntLut SIN_LUT_Q16 fmt = Inr c"
  using assms by (auto simp: createFixedPoint_def bindE_eq_Inr split: if_splits)

lemma createFixedPoint_NumberOps:
  assumes "createFixedPoint SIN_LUT_Q16 cfg = Inr (NumberOps fmt c)"
  shows "validate cfg = Inr fmt" and "\<not> useBigInt fmt" and "numberLut SIN_LUT_Q16 fmt = Inr c"
  using assms by (auto simp: createFixedPoint_def bindE_eq_Inr split: if_splits)

lemma MAX_number_exact:
  assumes "0 < totalBits fmt" "totalBits fmt \<le> 32"
  shows "MAX_number fmt = Fin (of_int (MAX_bigint fmt))"
proof -
  have le: "(2::int) ^ (totalBits fmt - 1) \<le> 2 ^ 31"
    using assms by (intro power_increasing) simp_all
  have "pow2 (totalBits fmt - 1) = Fin (2 ^ (totalBits fmt - 1))"
    using assms by (intro pow2_exact) simp
  moreover have "fl (of_int (2 ^ (totalBits fmt - 1) - 1)) = Fin (of_int (2 ^ (totalBits fmt - 1) - 1))"
    using le by (intro fl_int) simp
  ultimately show ?thesis
    by (simp add: MAX_number_def MAX_bigint_def num_sub_def push_bit_eq_mult)
qed

lemma MIN_number_exact:
  assumes "0 < totalBits fmt" "totalBits fmt \<le> 32"
  shows "MIN_number fmt = Fin (of_int (MIN_bigint fmt))"
proof -
  have "pow2 (totalBits fmt - 1) = Fin (2 ^ (totalBits fmt - 1))"
    using assms by (intro pow2_exact) simp
  then show ?thesis
    by (simp add: MIN_number_def MIN_bigint_def push_bit_eq_mult)
qed

lemma ONE_number_exact:
  assumes "fractionBits fmt < 53"
  shows "ONE_number fmt = Fin (of_int (ONE_bigint fmt))"
  using pow2_exact [OF assms] by (simp add: ONE_number_def ONE_bigint_def push_bit_eq_mult)

lemma wrapBigInt_half:
  assumes "0 < totalBits fmt" and "P = 2 ^ (totalBits fmt - 1)"
  shows "wrapBigInt fmt v = (if P \<le> v mod (2 * P) then v mod (2 * P) - 2 * P else v mod (2 * P))"
    and "MAX_bigint fmt = P - 1" and "MIN_bigint fmt = - P" and "0 < P"
proof -
  have T: "(2::int) ^ totalBits fmt = 2 * P"
    unfolding assms(2) using assms(1) by (rule pow_split)
  show "wrapBigInt fmt v = (if P \<le> v mod (2 * P) then v mod (2 * P) - 2 * P else v mod (2 * P))"
    unfolding wrapBigInt_mod T assms(2) [symmetric] by (rule refl)
  show "MAX_bigint fmt = P - 1" "MIN_bigint fmt = - P" "0 < P"
    by (simp_all add: MAX_bigint_def MIN_bigint_def push_bit_eq_mult assms(2))
qed

lemma add_MAX_EPSILON_bigint:
  assumes "0 < totalBits fmt"
  shows "add_bigint fmt (MAX_bigint fmt) EPSILON_bigint = MIN_bigint fmt"
proof -
  define P :: int where "P = 2 ^ (totalBits fmt - 1)"
  note h = wrapBigInt_half [OF assms P_def]
  have "P mod (2 * P) = P"
    using h(4) by (intro mod_pos_pos_trivial) linarith+
  then have "wrapBigInt fmt P = - P" by (simp add: h(1))
  then show ?thesis
    by (simp add: add_bigint_def EPSILON_bigint_def h(2,3))
qed

lemma sub_MIN_EPSILON_bigint:
  assumes "0 < totalBits fmt"
  shows "sub_bigint fmt (MIN_bigint fmt) EPSILON_bigint = MAX_bigint fmt"
proof -
  define P :: int where "P = 2 ^ (totalBits fmt - 1)"
  note h = wrapBigInt_half [OF assms P_def]
  have "(- P - 1) mod (2 * P) = (- P - 1 + 2 * P) mod (2 * P)"
    by (metis mod_add_self2)
  also have "\<dots> = - P - 1 + 2 * P"
    using h(4) by (intro mod_pos_pos_trivial) linarith+
  finally have "(- P - 1) mod (2 * P) = P - 1" by simp
  then have "wrapBigInt fmt (- P - 1) = P - 1"
    using h(4) by (simp add: h(1))
  then show ?thesis
    by (simp add: sub_bigint_def EPSILON_bigint_def h(2,3))
qed

lemma half_le:
  assumes "totalBits fmt \<le> 32"
  shows "(2::int) ^ (totalBits fmt - 1) \<le> 2147483648"
proof -
  have "(2::int) ^ (totalBits fmt - 1) \<le> 2 ^ 31"
    using assms by (intro power_increasing) simp_all
  then show ?thesis by simp
qed

lemma add_number_int:
  assumes "0 < totalBits fmt" "totalBits fmt \<le> 32" "\<bar>a + b\<bar> < 2 ^ 53"
  shows "add_number fmt (Fin (of_int a)) (Fin (of_int b)) = Inr (Fin (of_int (add_bigint fmt a b)))"
proof -
  have "num_add (Fin (of_int a)) (Fin (of_int b)) = Fin (of_int (a + b))"
    using fl_int [OF assms(3)] by simp
  then show ?thesis
    by (simp only: add_number_def assertInteger_of_int bindE_Inr wrapNumber_int [OF assms(1,2)]
        add_bigint_def)
qed

lemma sub_number_int:
  assumes "0 < totalBits fmt" "totalBits fmt \<le> 32" "\<bar>a - b\<bar> < 2 ^ 53"
  shows "sub_number fmt (Fin (of_int a)) (Fin (of_int b)) = Inr (Fin (of_int (sub_bigint fmt a b)))"
proof -
  have "num_sub (Fin (of_int a)) (Fin (of_int b)) = Fin (of_int (a - b))"
    using fl_int [OF assms(3)] by (simp add: num_sub_def)
  then show ?thesis
    by (simp only: sub_number_def assertInteger_of_int bindE_Inr wrapNumber_int [OF assms(1,2)]
        sub_bigint_def)
qed

text \<open>
  C3. In every operation set that \<^verbatim>\<open>createFixedPoint\<close> returns, of either backing,
  \<open>add(MAX, EPSILON) = MIN\<close> and \<open>sub(MIN, EPSILON) = MAX\<close>: the overflow wraps.
\<close>

theorem wraparound:
  assumes "createFixedPoint SIN_LUT_Q16 cfg = Inr ops"
  shows "case ops of
           BigIntOps fmt c \<Rightarrow>
             add_bigint fmt (MAX_bigint fmt) EPSILON_bigint = MIN_bigint fmt \<and>
             sub_bigint fmt (MIN_bigint fmt) EPSILON_bigint = MAX_bigint fmt
         | NumberOps fmt c \<Rightarrow>
             add_number fmt (MAX_number fmt) EPSILON_number = Inr (MIN_number fmt) \<and>
             sub_number fmt (MIN_number fmt) EPSILON_number = Inr (MAX_number fmt)"
proof (cases ops)
  case (BigIntOps fmt c)
  from assms BigIntOps have "validate cfg = Inr fmt" by (simp add: createFixedPoint_BigIntOps)
  then have "0 < totalBits fmt" using validate_Inr(1,2) [of cfg fmt] by simp
  then show ?thesis
    by (simp add: BigIntOps add_MAX_EPSILON_bigint sub_MIN_EPSILON_bigint)
next
  case (NumberOps fmt c)
  from assms NumberOps have v: "validate cfg = Inr fmt" and u: "\<not> useBigInt fmt"
    by (simp_all add: createFixedPoint_NumberOps)
  have t: "0 < totalBits fmt" "totalBits fmt \<le> 32"
    using validate_Inr [OF v] u by simp_all
  have le: "(2::int) ^ (totalBits fmt - 1) \<le> 2 ^ 31"
    using t by (intro power_increasing) simp_all
  define P :: int where "P = 2 ^ (totalBits fmt - 1)"
  note h = wrapBigInt_half [OF t(1) P_def]
  have "P \<le> 2147483648" unfolding P_def using t(2) by (rule half_le)
  with h(4) have a: "\<bar>MAX_bigint fmt + 1\<bar> < 2 ^ 53" and s: "\<bar>MIN_bigint fmt - 1\<bar> < 2 ^ 53"
    by (simp_all add: h(2,3))
  show ?thesis
    using add_number_int [OF t a] sub_number_int [OF t s]
      add_MAX_EPSILON_bigint [OF t(1)] sub_MIN_EPSILON_bigint [OF t(1)]
    by (simp add: NumberOps MAX_number_exact [OF t] MIN_number_exact [OF t]
        EPSILON_number_def EPSILON_bigint_def)
qed

lemma createFixedPoint_default:
  "createFixedPoint sample_lut default_config =
     Inr (NumberOps (format_of 16 32 False)
            \<lparr> TWO_PI = Fin 411775, PI_HALF = Fin 102944,
              sinLut = [Fin 0, Fin 65536, Fin 0, Fin (- 65536)] \<rparr>)"
  by code_simp

lemma createFixedPoint_16_64:
  "createFixedPoint sample_lut (config_of 16 64 None) =
     Inr (BigIntOps (format_of 16 64 True)
            \<lparr> TWO_PI = 411775, PI_HALF = 102944, sinLut = [0, 65536, 0, - 65536] \<rparr>)"
  by code_simp

theorem wraparound_witness:
  "add_number (format_of 16 32 False) (MAX_number (format_of 16 32 False)) EPSILON_number
     = Inr (MIN_number (format_of 16 32 False)) \<and>
   sub_number (format_of 16 32 False) (MIN_number (format_of 16 32 False)) EPSILON_number
     = Inr (MAX_number (format_of 16 32 False)) \<and>
   add_bigint (format_of 16 64 True) (MAX_bigint (format_of 16 64 True)) EPSILON_bigint
     = MIN_bigint (format_of 16 64 True) \<and>
   sub_bigint (format_of 16 64 True) (MIN_bigint (format_of 16 64 True)) EPSILON_bigint
     = MAX_bigint (format_of 16 64 True)"
  using wraparound [OF createFixedPoint_default] wraparound [OF createFixedPoint_16_64]
  by simp

section \<open>Integer conversion\<close>

lemma sdiv_mult_self:
  assumes "b \<noteq> 0"
  shows "(n * b) sdiv b = (n::int)"
proof -
  have "\<bar>n * b\<bar> div \<bar>b\<bar> = \<bar>n\<bar>" using assms by (simp add: abs_mult)
  moreover have "sgn b * sgn b = 1" using assms by (simp add: sgn_if)
  then have "sgn (n * b) * sgn b = sgn n" by (simp add: sgn_mult mult.assoc)
  ultimately have "(n * b) sdiv b = sgn n * \<bar>n\<bar>" by (simp add: signed_divide_int_def)
  then show ?thesis by (simp add: sgn_mult_abs)
qed

lemma abs_in_range:
  assumes "0 < totalBits fmt" "totalBits fmt \<le> 32" "MIN_bigint fmt \<le> v" "v \<le> MAX_bigint fmt"
  shows "\<bar>v\<bar> \<le> 2147483648"
proof -
  define P :: int where "P = 2 ^ (totalBits fmt - 1)"
  note h = wrapBigInt_half [OF assms(1) P_def]
  have "P \<le> 2147483648" unfolding P_def using assms(2) by (rule half_le)
  with assms(3,4) show ?thesis by (simp add: h(2,3))
qed

lemma fromInt_bigint_in_range:
  assumes "0 < totalBits fmt"
    and "MIN_bigint fmt \<le> n * 2 ^ fractionBits fmt" "n * 2 ^ fractionBits fmt \<le> MAX_bigint fmt"
  shows "fromInt_bigint fmt (Fin (of_int n)) = Inr (n * 2 ^ fractionBits fmt)"
  using wrapBigInt_id [OF assms] by (simp add: fromInt_bigint_def push_bit_eq_mult)

lemma toInt_bigint_scaled:
  "toInt_bigint fmt (n * 2 ^ fractionBits fmt) = Inr n"
  by (simp add: toInt_bigint_def bigint_div_def ONE_bigint_def push_bit_eq_mult sdiv_mult_self)

lemma fromInt_number_in_range:
  assumes "0 < totalBits fmt" "totalBits fmt \<le> 32" "fractionBits fmt < totalBits fmt"
    and "MIN_bigint fmt \<le> n * 2 ^ fractionBits fmt" "n * 2 ^ fractionBits fmt \<le> MAX_bigint fmt"
  shows "fromInt_number fmt (Fin (of_int n)) = Inr (Fin (of_int (n * 2 ^ fractionBits fmt)))"
proof -
  have "\<bar>n * 2 ^ fractionBits fmt\<bar> \<le> 2147483648"
    using assms(1,2,4,5) by (rule abs_in_range)
  then have "\<bar>n * 2 ^ fractionBits fmt\<bar> < 2 ^ 53" by simp
  then have "fl (of_int (n * 2 ^ fractionBits fmt)) = Fin (of_int (n * 2 ^ fractionBits fmt))"
    by (rule fl_int)
  moreover have "ONE_number fmt = Fin (of_int (ONE_bigint fmt))"
    using assms(2,3) by (intro ONE_number_exact) simp
  ultimately have "num_mul (Fin (of_int n)) (ONE_number fmt) = Fin (of_int (n * 2 ^ fractionBits fmt))"
    by (simp add: ONE_bigint_def push_bit_eq_mult)
  then show ?thesis
    by (simp only: fromInt_number_def assertInteger_of_int bindE_Inr wrapNumber_int [OF assms(1,2)]
        wrapBigInt_id [OF assms(1,4,5)])
qed

lemma toInt_number_scaled:
  assumes "fractionBits fmt < 53" "\<bar>n\<bar> < 2 ^ 53"
  shows "toInt_number fmt (Fin (of_int (n * 2 ^ fractionBits fmt))) = Fin (of_int n)"
proof -
  have "ONE_number fmt = Fin (2 ^ fractionBits fmt)"
    using ONE_number_exact [OF assms(1)] by (simp add: ONE_bigint_def push_bit_eq_mult)
  then show ?thesis
    using fl_int [OF assms(2)] by (simp add: toInt_number_def)
qed

text \<open>
  C5. For every integer \<open>n\<close> with \<open>n * 2 ^ fractionBits\<close> within \<open>[MIN, MAX]\<close>,
  \<open>toInt(fromInt(n)) = n\<close>, in the operation set of either backing.
\<close>

theorem toInt_fromInt:
  assumes "createFixedPoint SIN_LUT_Q16 cfg = Inr ops"
    and "MIN_bigint (ops_format ops) \<le> n * 2 ^ fractionBits (ops_format ops)"
    and "n * 2 ^ fractionBits (ops_format ops) \<le> MAX_bigint (ops_format ops)"
  shows "case ops of
           BigIntOps fmt c \<Rightarrow>
             bindE (fromInt_bigint fmt (Fin (of_int n))) (toInt_bigint fmt) = Inr n
         | NumberOps fmt c \<Rightarrow>
             bindE (fromInt_number fmt (Fin (of_int n))) (\<lambda>a. Inr (toInt_number fmt a))
               = Inr (Fin (of_int n))"
proof (cases ops)
  case (BigIntOps fmt c)
  from assms(1) BigIntOps have "validate cfg = Inr fmt" by (simp add: createFixedPoint_BigIntOps)
  then have t: "0 < totalBits fmt" using validate_Inr(1,2) [of cfg fmt] by simp
  show ?thesis
    using assms(2,3) fromInt_bigint_in_range [OF t, of n]
    by (simp add: BigIntOps toInt_bigint_scaled)
next
  case (NumberOps fmt c)
  from assms(1) NumberOps have v: "validate cfg = Inr fmt" and u: "\<not> useBigInt fmt"
    by (simp_all add: createFixedPoint_NumberOps)
  have t: "0 < totalBits fmt" "totalBits fmt \<le> 32" "fractionBits fmt < totalBits fmt"
    using validate_Inr [OF v] u by simp_all
  from assms(2,3) have r: "MIN_bigint fmt \<le> n * 2 ^ fractionBits fmt"
      "n * 2 ^ fractionBits fmt \<le> MAX_bigint fmt"
    by (simp_all add: NumberOps)
  have "\<bar>n * 2 ^ fractionBits fmt\<bar> \<le> 2147483648"
    using t(1,2) r by (rule abs_in_range)
  moreover have "\<bar>n\<bar> * 1 \<le> \<bar>n\<bar> * 2 ^ fractionBits fmt"
    by (intro mult_left_mono) simp_all
  ultimately have n: "\<bar>n\<bar> < 2 ^ 53" by (simp add: abs_mult)
  have f: "fractionBits fmt < 53" using t by simp
  show ?thesis
    using fromInt_number_in_range [OF t r] toInt_number_scaled [OF f n]
    by (simp add: NumberOps)
qed

theorem toInt_fromInt_witness:
  "bindE (fromInt_number (format_of 16 32 False) (Fin (- 1024)))
     (\<lambda>a. Inr (toInt_number (format_of 16 32 False) a)) = Inr (Fin (- 1024)) \<and>
   bindE (fromInt_bigint (format_of 16 64 True) (Fin 5)) (toInt_bigint (format_of 16 64 True))
     = Inr 5"
proof -
  have a: "MIN_bigint (format_of 16 32 False) \<le> (- 1024) * 2 ^ fractionBits (format_of 16 32 False)"
          "(- 1024) * 2 ^ fractionBits (format_of 16 32 False) \<le> MAX_bigint (format_of 16 32 False)"
    by (simp_all add: format_of_def MIN_bigint_def MAX_bigint_def)
  have b: "MIN_bigint (format_of 16 64 True) \<le> 5 * 2 ^ fractionBits (format_of 16 64 True)"
          "5 * 2 ^ fractionBits (format_of 16 64 True) \<le> MAX_bigint (format_of 16 64 True)"
    by (simp_all add: format_of_def MIN_bigint_def MAX_bigint_def)
  show ?thesis
    using toInt_fromInt [OF createFixedPoint_default, of "- 1024"]
      toInt_fromInt [OF createFixedPoint_16_64, of 5] a b
    by simp
qed

section \<open>Comparisons\<close>

text \<open>
  C9. As amended: the six comparisons of the bigint backing compare the scaled integers and
  cannot throw. Those of the number backing do the same on every pair of finite integer
  operands; \<^verbatim>\<open>assertInteger\<close> makes them throw on any other operand.
\<close>

theorem comparisons_on_integers:
  "eq_bigint a b = (a = b) \<and> neq_bigint a b = (a \<noteq> b) \<and>
   gt_bigint a b = (a > b) \<and> gte_bigint a b = (a \<ge> b) \<and>
   lt_bigint a b = (a < b) \<and> lte_bigint a b = (a \<le> b) \<and>
   eq_number (Fin (of_int a)) (Fin (of_int b)) = Inr (a = b) \<and>
   neq_number (Fin (of_int a)) (Fin (of_int b)) = Inr (a \<noteq> b) \<and>
   gt_number (Fin (of_int a)) (Fin (of_int b)) = Inr (a > b) \<and>
   gte_number (Fin (of_int a)) (Fin (of_int b)) = Inr (a \<ge> b) \<and>
   lt_number (Fin (of_int a)) (Fin (of_int b)) = Inr (a < b) \<and>
   lte_number (Fin (of_int a)) (Fin (of_int b)) = Inr (a \<le> b) \<and>
   (\<not> (isFinite x \<and> isInteger x \<and> isFinite y \<and> isInteger y) \<longrightarrow>
      eq_number x y = Inl OperandNotInteger \<and> neq_number x y = Inl OperandNotInteger \<and>
      gt_number x y = Inl OperandNotInteger \<and> gte_number x y = Inl OperandNotInteger \<and>
      lt_number x y = Inl OperandNotInteger \<and> lte_number x y = Inl OperandNotInteger)"
  by (auto simp: eq_bigint_def neq_bigint_def gt_bigint_def gte_bigint_def lt_bigint_def
      lte_bigint_def eq_number_def neq_number_def gt_number_def gte_number_def lt_number_def
      lte_number_def compare_number_def num_le_def assertInteger_def bindE_def
      split: sum.splits)

theorem comparisons_on_integers_witness:
  "gt_bigint 3 2 = True \<and> lt_number (Fin 2) (Fin 3) = Inr True \<and>
   gte_number NaN (Fin 3) = Inl OperandNotInteger"
  using comparisons_on_integers [of 3 2 NaN "Fin 3"] comparisons_on_integers [of 2 3 NaN "Fin 3"]
  by simp

theorem comparison_throws_counterexample:
  "eq_number (Fin (1 / 2)) (Fin 1) = Inl OperandNotInteger \<and>
   lt_number (Fin (1 / 2)) (Fin 1) = Inl OperandNotInteger"
  by code_simp

section \<open>The rescaled table\<close>

lemma mapE_Inr:
  "mapE f xs = Inr ys \<Longrightarrow> list_all2 (\<lambda>x y. f x = Inr y) xs ys"
proof (induction xs arbitrary: ys)
  case Nil
  then show ?case by simp
next
  case (Cons x xs)
  then show ?case by (auto simp: bindE_eq_Inr)
qed

lemma scaleQ16_number_Inr:
  assumes "0 < totalBits fmt" "totalBits fmt \<le> 32" "scaleQ16_number fmt x = Inr y"
  obtains v where "y = Fin (of_int (wrapBigInt fmt v))"
proof -
  from assms(3) obtain z where "wrapNumber fmt z = Inr y"
    by (auto simp: scaleQ16_number_def Let_def bindE_eq_Inr)
  then show thesis
    using assms(1,2) that by (elim wrapNumber_Inr [rotated 2]) simp_all
qed

lemma abs_drop_bit_le: "\<bar>drop_bit k (v::int)\<bar> \<le> \<bar>v\<bar>"
proof (cases "0 \<le> v")
  case True
  then have "0 \<le> v div 2 ^ k" by (simp add: pos_imp_zdiv_nonneg_iff)
  moreover have "v div 2 ^ k \<le> v div 1" using True by (intro zdiv_mono2) simp_all
  ultimately show ?thesis using True by (simp add: drop_bit_eq_div)
next
  case False
  then have v: "v < 0" by simp
  have "v div 1 \<le> v div 2 ^ k" using v by (intro zdiv_mono2_neg) simp_all
  moreover have "v div 2 ^ k < 0" using v by (simp add: pos_imp_zdiv_neg_iff)
  ultimately show ?thesis using v by (simp add: drop_bit_eq_div)
qed

lemma scaleQ16_number_small:
  assumes "0 < totalBits fmt" "totalBits fmt \<le> 32" "fractionBits fmt < 32" "\<bar>v\<bar> < 2 ^ 20"
  shows "scaleQ16_number fmt (Fin (of_int v)) = bindE (scaleQ16_bigint fmt (Fin (of_int v))) (\<lambda>w. Inr (Fin (of_int w)))"
proof -
  let ?d = "int (fractionBits fmt) - int DEFAULT_FRACTION_BITS"
  consider "0 < ?d" | "?d = 0" | "?d < 0" by linarith
  then show ?thesis
  proof cases
    case 1
    then have "nat ?d \<le> 15" using assms(3) by (simp add: DEFAULT_FRACTION_BITS_def)
    then have "(2::int) ^ nat ?d \<le> 2 ^ 15" by (intro power_increasing) simp_all
    then have "\<bar>v\<bar> * 2 ^ nat ?d \<le> \<bar>v\<bar> * 2 ^ 15" by (intro mult_left_mono) simp_all
    also have "\<dots> < 2 ^ 20 * 2 ^ 15" using assms(4) by (intro mult_strict_right_mono) simp_all
    finally have "\<bar>push_bit (nat ?d) v\<bar> < 2 ^ 53" by (simp add: push_bit_eq_mult abs_mult)
    from Number_exact [OF this] 1 show ?thesis
      by (simp add: scaleQ16_number_def scaleQ16_bigint_def Let_def wrapNumber_int [OF assms(1,2)])
  next
    case 2
    then show ?thesis
      by (simp add: scaleQ16_number_def scaleQ16_bigint_def Let_def wrapNumber_int [OF assms(1,2)])
  next
    case 3
    have "\<bar>drop_bit (nat (- ?d)) v\<bar> \<le> \<bar>v\<bar>"
      by (rule abs_drop_bit_le)
    with assms(4) have "\<bar>drop_bit (nat (- ?d)) v\<bar> < 2 ^ 53" by simp
    from Number_exact [OF this] 3 show ?thesis
      by (simp add: scaleQ16_number_def scaleQ16_bigint_def Let_def wrapNumber_int [OF assms(1,2)])
  qed
qed


lemma numberLut_Inr:
  assumes "0 < totalBits fmt" "totalBits fmt \<le> 32" "fractionBits fmt < 32"
    and "numberLut SIN_LUT_Q16 fmt = Inr c"
  obtains c' where "bigIntLut SIN_LUT_Q16 fmt = Inr c'"
    and "TWO_PI c = Fin (of_int (TWO_PI c'))" and "PI_HALF c = Fin (of_int (PI_HALF c'))"
    and "length (sinLut c) = length SIN_LUT_Q16"
    and "\<And>i. i < length SIN_LUT_Q16 \<Longrightarrow> \<exists>v. sinLut c ! i = Fin (of_int (wrapBigInt fmt v))"
    and "length (sinLut c') = length SIN_LUT_Q16"
proof -
  from assms(4) obtain tp ph tbl where
    tp: "scaleQ16_number fmt (Fin (of_int TWO_PI_Q16)) = Inr tp" and
    ph: "scaleQ16_number fmt (Fin (of_int PI_HALF_Q16)) = Inr ph" and
    tbl: "mapE (\<lambda>v. scaleQ16_number fmt (Fin (of_int v))) SIN_LUT_Q16 = Inr tbl" and
    c: "c = \<lparr> TWO_PI = tp, PI_HALF = ph, sinLut = tbl \<rparr>"
    by (auto simp: numberLut_def bindE_eq_Inr)
  have s1: "\<bar>TWO_PI_Q16\<bar> < 2 ^ 20" "\<bar>PI_HALF_Q16\<bar> < 2 ^ 20"
    by (simp_all add: TWO_PI_Q16_def PI_HALF_Q16_def)
  from tp scaleQ16_number_small [OF assms(1-3) s1(1)] obtain tp' where
    tp': "scaleQ16_bigint fmt (Fin (of_int TWO_PI_Q16)) = Inr tp'" "tp = Fin (of_int tp')"
    by (auto simp: bindE_eq_Inr)
  from ph scaleQ16_number_small [OF assms(1-3) s1(2)] obtain ph' where
    ph': "scaleQ16_bigint fmt (Fin (of_int PI_HALF_Q16)) = Inr ph'" "ph = Fin (of_int ph')"
    by (auto simp: bindE_eq_Inr)
  have l2: "list_all2 (\<lambda>x y. scaleQ16_number fmt (Fin (of_int x)) = Inr y) SIN_LUT_Q16 tbl"
    using tbl by (rule mapE_Inr)
  then have len: "length tbl = length SIN_LUT_Q16" by (simp add: list_all2_lengthD)
  have ent: "\<exists>v. tbl ! i = Fin (of_int (wrapBigInt fmt v))" if "i < length SIN_LUT_Q16" for i
  proof -
    have "scaleQ16_number fmt (Fin (of_int (SIN_LUT_Q16 ! i))) = Inr (tbl ! i)"
      using list_all2_nthD [OF l2 that] by simp
    then show ?thesis
      using assms(1,2) by (elim scaleQ16_number_Inr [rotated 2]) auto
  qed
  define tbl' where "tbl' = map (\<lambda>v. wrapBigInt fmt
      (let v0 = v; v1 = (if 0 < int (fractionBits fmt) - int DEFAULT_FRACTION_BITS
                         then push_bit (nat (int (fractionBits fmt) - int DEFAULT_FRACTION_BITS)) v0 else v0)
       in (if int (fractionBits fmt) - int DEFAULT_FRACTION_BITS < 0
           then drop_bit (nat (- (int (fractionBits fmt) - int DEFAULT_FRACTION_BITS))) v1 else v1))) SIN_LUT_Q16"
  have "mapE (\<lambda>v. scaleQ16_bigint fmt (Fin (of_int v))) xs = Inr (map (\<lambda>v. wrapBigInt fmt
      (let v0 = v; v1 = (if 0 < int (fractionBits fmt) - int DEFAULT_FRACTION_BITS
                         then push_bit (nat (int (fractionBits fmt) - int DEFAULT_FRACTION_BITS)) v0 else v0)
       in (if int (fractionBits fmt) - int DEFAULT_FRACTION_BITS < 0
           then drop_bit (nat (- (int (fractionBits fmt) - int DEFAULT_FRACTION_BITS))) v1 else v1))) xs)" for xs
    by (induction xs) (simp_all add: scaleQ16_bigint_def Let_def)
  then have m: "mapE (\<lambda>v. scaleQ16_bigint fmt (Fin (of_int v))) SIN_LUT_Q16 = Inr tbl'"
    by (simp add: tbl'_def)
  have b: "bigIntLut SIN_LUT_Q16 fmt = Inr \<lparr> TWO_PI = tp', PI_HALF = ph', sinLut = tbl' \<rparr>"
    by (simp add: bigIntLut_def tp'(1) ph'(1) m)
  show thesis
    by (rule that [OF b]) (simp_all add: c tp'(2) ph'(2) len ent tbl'_def)
qed

lemma scaleQ16_bigint_Inr:
  assumes "scaleQ16_bigint fmt x = Inr y"
  obtains v where "y = wrapBigInt fmt v"
  using assms unfolding scaleQ16_bigint_def Let_def bindE_eq_Inr by blast

lemma bigIntLut_Inr:
  assumes "bigIntLut SIN_LUT_Q16 fmt = Inr c"
  shows "length (sinLut c) = length SIN_LUT_Q16"
    and "\<And>i. i < length SIN_LUT_Q16 \<Longrightarrow> \<exists>v. sinLut c ! i = wrapBigInt fmt v"
    and "\<exists>v. TWO_PI c = wrapBigInt fmt v" and "\<exists>v. PI_HALF c = wrapBigInt fmt v"
proof -
  from assms obtain tp ph tbl where
    tp: "scaleQ16_bigint fmt (Fin (of_int TWO_PI_Q16)) = Inr tp" and
    ph: "scaleQ16_bigint fmt (Fin (of_int PI_HALF_Q16)) = Inr ph" and
    tbl: "mapE (\<lambda>v. scaleQ16_bigint fmt (Fin (of_int v))) SIN_LUT_Q16 = Inr tbl" and
    c: "c = \<lparr> TWO_PI = tp, PI_HALF = ph, sinLut = tbl \<rparr>"
    by (auto simp: bigIntLut_def bindE_eq_Inr)
  have l2: "list_all2 (\<lambda>x y. scaleQ16_bigint fmt (Fin (of_int x)) = Inr y) SIN_LUT_Q16 tbl"
    using tbl by (rule mapE_Inr)
  then show "length (sinLut c) = length SIN_LUT_Q16" by (simp add: c list_all2_lengthD)
  show "\<exists>v. sinLut c ! i = wrapBigInt fmt v" if "i < length SIN_LUT_Q16" for i
  proof -
    have "scaleQ16_bigint fmt (Fin (of_int (SIN_LUT_Q16 ! i))) = Inr (tbl ! i)"
      using list_all2_nthD [OF l2 that] by simp
    then show ?thesis by (elim scaleQ16_bigint_Inr) (auto simp: c)
  qed
  show "\<exists>v. TWO_PI c = wrapBigInt fmt v" using tp by (elim scaleQ16_bigint_Inr) (auto simp: c)
  show "\<exists>v. PI_HALF c = wrapBigInt fmt v" using ph by (elim scaleQ16_bigint_Inr) (auto simp: c)
qed

section \<open>Sine and cosine\<close>

lemma smod_bounds:
  assumes "0 < (b::int)"
  shows "- b < a smod b" and "a smod b < b"
proof -
  have m: "0 \<le> \<bar>a\<bar> mod b" "\<bar>a\<bar> mod b < b" using assms by simp_all
  have "a smod b = sgn a * (\<bar>a\<bar> mod b)" using assms by (simp add: signed_modulo_int_def)
  then have "a smod b = \<bar>a\<bar> mod b \<or> a smod b = - (\<bar>a\<bar> mod b) \<or> a smod b = 0"
    by (auto simp: sgn_if)
  with m show "- b < a smod b" and "a smod b < b" by linarith+
qed

lemma sdiv_nonneg: "0 \<le> a \<Longrightarrow> 0 < b \<Longrightarrow> a sdiv b = a div (b::int)"
  by (simp add: signed_divide_int_def sgn_if)

lemma smod_nonneg: "0 \<le> a \<Longrightarrow> 0 < b \<Longrightarrow> a smod b = a mod (b::int)"
  by (simp add: signed_modulo_int_def sgn_if)

lemma sin_index_range:
  fixes tp L theta :: int
  assumes "0 < tp" "0 < L"
  defines "t \<equiv> (if theta smod tp < 0 then theta smod tp + tp else theta smod tp)"
  defines "idx \<equiv> (t * L) sdiv tp"
  shows "0 \<le> t" "t < tp" "0 \<le> idx" "idx < L" "idx smod L = idx"
proof -
  show t: "0 \<le> t" "t < tp"
    using smod_bounds [OF assms(1), of theta] by (simp_all add: t_def)
  have n: "0 \<le> t * L" using t(1) assms(2) by simp
  have i: "idx = (t * L) div tp" unfolding idx_def using n assms(1) by (rule sdiv_nonneg)
  show i0: "0 \<le> idx" using n assms(1) by (simp add: i pos_imp_zdiv_nonneg_iff)
  have "t * L < tp * L" using t(2) assms(2) by simp
  moreover have "tp * idx + (t * L) mod tp = t * L" unfolding i by simp
  moreover have "0 \<le> (t * L) mod tp" using assms(1) by simp
  ultimately have "tp * idx < tp * L" by linarith
  then show iL: "idx < L" using assms(1) by simp
  show "idx smod L = idx" using i0 iL assms(2) by (simp add: smod_nonneg)
qed

lemma trunc_divide: 
  assumes "b \<noteq> 0"
  shows "trunc (of_int a / of_int b) = a sdiv b"
proof -
  have q: "(of_int \<bar>a\<bar> :: rat) / of_int \<bar>b\<bar> \<ge> 0" by simp
  have f: "\<lfloor>(of_int \<bar>a\<bar> :: rat) / of_int \<bar>b\<bar>\<rfloor> = \<bar>a\<bar> div \<bar>b\<bar>"
    by (rule floor_divide_of_int_eq)
  have s: "(of_int a :: rat) / of_int b = of_int (sgn a * sgn b) * (of_int \<bar>a\<bar> / of_int \<bar>b\<bar>)"
    using assms by (simp add: sgn_if abs_if)
  have "sgn a * sgn b = 1 \<or> sgn a * sgn b = - 1 \<or> a = 0"
    using assms by (cases "a = 0"; cases "0 < a"; cases "0 < b") (simp_all add: sgn_if)
  then consider "sgn a * sgn b = 1" | "sgn a * sgn b = - 1" | "a = 0" by blast
  then show ?thesis
  proof cases
    case 1
    then show ?thesis using q f by (simp add: s trunc_def signed_divide_int_def)
  next
    case 2
    have "trunc (- ((of_int \<bar>a\<bar> :: rat) / of_int \<bar>b\<bar>)) = - (\<bar>a\<bar> div \<bar>b\<bar>)"
      using q f by (simp add: trunc_def ceiling_minus)
    then show ?thesis using 2 by (simp add: s signed_divide_int_def)
  next
    case 3
    then show ?thesis by (simp add: trunc_def)
  qed
qed

lemma num_rem_int:
  assumes "b \<noteq> 0"
  shows "num_rem (Fin (of_int a)) (Fin (of_int b)) = Fin (of_int (a smod b))"
proof -
  have "a smod b = a - b * (a sdiv b)" by (simp add: minus_mult_sdiv_eq_smod)
  then show ?thesis using assms by (simp add: trunc_divide)
qed

lemma sin_bigint_positive:
  assumes "0 < TWO_PI c" "SIN_LUT_Q16 \<noteq> []" "length (sinLut c) = length SIN_LUT_Q16"
  obtains idx where "sin_idx_bigint SIN_LUT_Q16 c theta = Inr idx"
    and "0 \<le> idx" and "idx < int (LUT_SIZE SIN_LUT_Q16)"
    and "bigint_rem idx (int (LUT_SIZE SIN_LUT_Q16)) = Inr idx"
    and "sin_bigint SIN_LUT_Q16 c theta = Inr (Some (sinLut c ! nat idx))"
proof -
  define L where "L = int (LUT_SIZE SIN_LUT_Q16)"
  define t where "t = (if theta smod TWO_PI c < 0 then theta smod TWO_PI c + TWO_PI c
                       else theta smod TWO_PI c)"
  define idx where "idx = (t * L) sdiv TWO_PI c"
  have L: "0 < L" using assms(2) by (simp add: L_def LUT_SIZE_def)
  note r = sin_index_range [OF assms(1) L, of theta, folded t_def idx_def]
  have i: "sin_idx_bigint SIN_LUT_Q16 c theta = Inr idx"
    using assms(1) by (simp add: sin_idx_bigint_def bigint_rem_def bigint_div_def Let_def
        idx_def t_def L_def)
  have m: "bigint_rem idx L = Inr idx" using L r(5) by (simp add: bigint_rem_def)
  have g: "array_get (sinLut c) idx = Some (sinLut c ! nat idx)"
    using r(3,4) assms(3) by (simp add: array_get_def L_def LUT_SIZE_def)
  have s: "sin_bigint SIN_LUT_Q16 c theta = Inr (Some (sinLut c ! nat idx))"
    using m g by (simp add: sin_bigint_def i flip: L_def)
  show thesis
    using i r(3) r(4) m s unfolding L_def by (rule that)
qed

lemma sin_number_positive:
  assumes "TWO_PI c = Fin (of_int tp)" "0 < tp" "tp < 2 ^ 52"
    and "SIN_LUT_Q16 \<noteq> []" "length SIN_LUT_Q16 < 2 ^ 32"
    and "length (sinLut c) = length SIN_LUT_Q16"
  obtains idx where "sin_idx_number SIN_LUT_Q16 c (Fin (of_int theta)) = Inr (Fin (of_int idx))"
    and "0 \<le> idx" and "idx < int (LUT_SIZE SIN_LUT_Q16)"
    and "num_rem (Fin (of_int idx)) (Fin (of_nat (LUT_SIZE SIN_LUT_Q16))) = Fin (of_int idx)"
    and "sin_number SIN_LUT_Q16 c (Fin (of_int theta)) = Inr (Some (sinLut c ! nat idx))"
proof -
  define L where "L = int (LUT_SIZE SIN_LUT_Q16)"
  define t where "t = (if theta smod tp < 0 then theta smod tp + tp else theta smod tp)"
  define idx where "idx = (t * L) sdiv tp"
  have L: "0 < L" using assms(4) by (simp add: L_def LUT_SIZE_def)
  have L32: "L < 2 ^ 32" using assms(5) by (simp add: L_def LUT_SIZE_def)
  note r = sin_index_range [OF assms(2) L, of theta, folded t_def idx_def]
  have tp0: "tp \<noteq> 0" using assms(2) by simp
  have t0: "num_rem (Fin (of_int theta)) (TWO_PI c) = Fin (of_int (theta smod tp))"
    unfolding assms(1) using tp0 by (rule num_rem_int)
  have ta: "num_add (Fin (of_int (theta smod tp))) (TWO_PI c) = Fin (of_int (theta smod tp + tp))"
  proof -
    have "\<bar>theta smod tp + tp\<bar> < 2 ^ 53"
      using smod_bounds [OF assms(2), of theta] assms(2,3) by simp
    from fl_int [OF this] show ?thesis by (simp add: assms(1))
  qed
  have tt: "(if num_lt (Fin (of_int (theta smod tp))) (Fin 0)
             then num_add (Fin (of_int (theta smod tp))) (TWO_PI c)
             else Fin (of_int (theta smod tp))) = Fin (of_int t)"
    by (simp add: ta t_def)
  have n: "Number idx = Fin (of_int idx)"
    using r(3,4) L32 by (intro Number_exact) simp
  have i: "sin_idx_number SIN_LUT_Q16 c (Fin (of_int theta)) = Inr (Fin (of_int idx))"
    unfolding sin_idx_number_def Let_def t0 tt
    using tp0 n by (simp add: assms(1) bigint_div_def idx_def L_def)
  have "num_rem (Fin (of_int idx)) (Fin (of_int L)) = Fin (of_int (idx smod L))"
    using L by (intro num_rem_int) simp
  then have "num_rem (Fin (of_int idx)) (Fin (of_int L)) = Fin (of_int idx)"
    by (simp only: r(5))
  then have m: "num_rem (Fin (of_int idx)) (Fin (of_nat (LUT_SIZE SIN_LUT_Q16))) = Fin (of_int idx)"
    unfolding L_def by (simp only: of_int_of_nat_eq)
  have g: "array_get_number (sinLut c) (Fin (of_int idx)) = Some (sinLut c ! nat idx)"
    using r(3,4) assms(6) by (simp add: array_get_number_def array_get_def L_def LUT_SIZE_def)
  have s: "sin_number SIN_LUT_Q16 c (Fin (of_int theta)) = Inr (Some (sinLut c ! nat idx))"
    by (simp only: sin_number_def i bindE_Inr m g)
  show thesis
    using i r(3) r(4) m s unfolding L_def by (rule that)
qed

lemma NumberOps_facts:
  assumes "createFixedPoint SIN_LUT_Q16 cfg = Inr (NumberOps fmt c)"
  shows "0 < totalBits fmt" and "totalBits fmt \<le> 32" and "fractionBits fmt < 32"
    and "length (sinLut c) = length SIN_LUT_Q16"
    and "\<exists>p. TWO_PI c = Fin (of_int p) \<and> \<bar>p\<bar> \<le> 2147483648"
    and "\<exists>p. PI_HALF c = Fin (of_int p) \<and> \<bar>p\<bar> \<le> 2147483648"
    and "i < length SIN_LUT_Q16 \<Longrightarrow> \<exists>v. sinLut c ! i = Fin (of_int (wrapBigInt fmt v))"
proof -
  from assms have v: "validate cfg = Inr fmt" and u: "\<not> useBigInt fmt"
    and n: "numberLut SIN_LUT_Q16 fmt = Inr c"
    by (simp_all add: createFixedPoint_NumberOps)
  show t: "0 < totalBits fmt" "totalBits fmt \<le> 32" "fractionBits fmt < 32"
    using validate_Inr [OF v] u by simp_all
  have r: "\<bar>wrapBigInt fmt x\<bar> \<le> 2147483648" for x
    using t(1,2) wrapBigInt_range [OF t(1), of x] by (rule abs_in_range)
  show "length (sinLut c) = length SIN_LUT_Q16"
    by (rule numberLut_Inr [OF t n])
  show "\<exists>p. TWO_PI c = Fin (of_int p) \<and> \<bar>p\<bar> \<le> 2147483648"
  proof (rule numberLut_Inr [OF t n])
    fix c' assume "bigIntLut SIN_LUT_Q16 fmt = Inr c'" "TWO_PI c = Fin (of_int (TWO_PI c'))"
    with bigIntLut_Inr(3) [of SIN_LUT_Q16 fmt c'] r show ?thesis by metis
  qed
  show "\<exists>p. PI_HALF c = Fin (of_int p) \<and> \<bar>p\<bar> \<le> 2147483648"
  proof (rule numberLut_Inr [OF t n])
    fix c' assume "bigIntLut SIN_LUT_Q16 fmt = Inr c'" "PI_HALF c = Fin (of_int (PI_HALF c'))"
    with bigIntLut_Inr(4) [of SIN_LUT_Q16 fmt c'] r show ?thesis by metis
  qed
  show "\<exists>v. sinLut c ! i = Fin (of_int (wrapBigInt fmt v))" if "i < length SIN_LUT_Q16"
  proof (rule numberLut_Inr [OF t n])
    assume "\<And>i. i < length SIN_LUT_Q16 \<Longrightarrow> \<exists>v. sinLut c ! i = Fin (of_int (wrapBigInt fmt v))"
    from this [OF that] show ?thesis .
  qed
qed

text \<open>
  C10. When the rescaled \<open>TWO_PI\<close> is positive, the index that \<^verbatim>\<open>sin\<close> computes for an
  integer \<open>theta\<close> lies in \<open>[0, LUT_SIZE)\<close>: the final remainder by \<open>LUT_SIZE\<close> leaves it
  unchanged and the read returns a sample of the table. The table is not empty and, as
  every JavaScript array, shorter than \<open>2 ^ 32\<close>.
\<close>

theorem sin_index_in_table:
  assumes "createFixedPoint SIN_LUT_Q16 cfg = Inr ops"
    and "SIN_LUT_Q16 \<noteq> []" and "length SIN_LUT_Q16 < 2 ^ 32"
  shows "case ops of
           BigIntOps fmt c \<Rightarrow> 0 < TWO_PI c \<longrightarrow>
             (\<exists>idx. sin_idx_bigint SIN_LUT_Q16 c theta = Inr idx \<and>
                0 \<le> idx \<and> idx < int (LUT_SIZE SIN_LUT_Q16) \<and>
                bigint_rem idx (int (LUT_SIZE SIN_LUT_Q16)) = Inr idx \<and>
                sin_bigint SIN_LUT_Q16 c theta = Inr (Some (sinLut c ! nat idx)))
         | NumberOps fmt c \<Rightarrow> num_lt (Fin 0) (TWO_PI c) \<longrightarrow>
             (\<exists>idx. sin_idx_number SIN_LUT_Q16 c (Fin (of_int theta)) = Inr (Fin (of_int idx)) \<and>
                0 \<le> idx \<and> idx < int (LUT_SIZE SIN_LUT_Q16) \<and>
                num_rem (Fin (of_int idx)) (Fin (of_nat (LUT_SIZE SIN_LUT_Q16))) = Fin (of_int idx) \<and>
                sin_number SIN_LUT_Q16 c (Fin (of_int theta)) = Inr (Some (sinLut c ! nat idx)))"
proof (cases ops)
  case (BigIntOps fmt c)
  from assms(1) BigIntOps have "bigIntLut SIN_LUT_Q16 fmt = Inr c"
    by (simp add: createFixedPoint_BigIntOps)
  then have len: "length (sinLut c) = length SIN_LUT_Q16" by (rule bigIntLut_Inr(1))
  have "\<exists>idx. sin_idx_bigint SIN_LUT_Q16 c theta = Inr idx \<and>
          0 \<le> idx \<and> idx < int (LUT_SIZE SIN_LUT_Q16) \<and>
          bigint_rem idx (int (LUT_SIZE SIN_LUT_Q16)) = Inr idx \<and>
          sin_bigint SIN_LUT_Q16 c theta = Inr (Some (sinLut c ! nat idx))" if "0 < TWO_PI c"
    using sin_bigint_positive [OF that assms(2) len, of theta] by blast
  then show ?thesis by (simp add: BigIntOps)
next
  case (NumberOps fmt c)
  from assms(1) NumberOps have "createFixedPoint SIN_LUT_Q16 cfg = Inr (NumberOps fmt c)" by simp
  note f = NumberOps_facts [OF this]
  from f(5) obtain p where tp: "TWO_PI c = Fin (of_int p)" and b: "\<bar>p\<bar> \<le> 2147483648"
    by blast
  note len = f(4)
  have "\<exists>idx. sin_idx_number SIN_LUT_Q16 c (Fin (of_int theta)) = Inr (Fin (of_int idx)) \<and>
          0 \<le> idx \<and> idx < int (LUT_SIZE SIN_LUT_Q16) \<and>
          num_rem (Fin (of_int idx)) (Fin (of_nat (LUT_SIZE SIN_LUT_Q16))) = Fin (of_int idx) \<and>
          sin_number SIN_LUT_Q16 c (Fin (of_int theta)) = Inr (Some (sinLut c ! nat idx))"
    if "num_lt (Fin 0) (TWO_PI c)"
  proof -
    from that have p: "0 < p" by (simp add: tp)
    from b have s: "p < 2 ^ 52" by simp
    show ?thesis
      using sin_number_positive [OF tp p s assms(2,3) len, of theta] by blast
  qed
  then show ?thesis by (simp add: NumberOps)
qed

theorem sin_index_in_table_witness:
  "(\<exists>idx. sin_idx_number sample_lut
             \<lparr> TWO_PI = Fin 411775, PI_HALF = Fin 102944,
               sinLut = [Fin 0, Fin 65536, Fin 0, Fin (- 65536)] \<rparr> (Fin 102944)
             = Inr (Fin (of_int idx)) \<and> 0 \<le> idx \<and> idx < 4) \<and>
   (\<exists>idx. sin_idx_bigint sample_lut
             \<lparr> TWO_PI = 411775, PI_HALF = 102944, sinLut = [0, 65536, 0, - 65536] \<rparr> (- 5)
             = Inr idx \<and> 0 \<le> idx \<and> idx < 4)"
proof -
  have a: "sample_lut \<noteq> []" "length sample_lut < 2 ^ 32" "LUT_SIZE sample_lut = 4"
    by (simp_all add: sample_lut_def LUT_SIZE_def)
  show ?thesis
    using sin_index_in_table [OF createFixedPoint_default a(1,2), of 102944]
      sin_index_in_table [OF createFixedPoint_16_64 a(1,2), of "- 5"]
    by (simp add: a(3)) blast
qed

text \<open>
  C8. \<open>cos(theta)\<close> is \<open>sin\<close> at the sum \<open>theta + PI_HALF\<close> wrapped to \<open>totalBits\<close>: on the bigint
  backing for every \<open>theta\<close>, on the number backing for every scaled integer \<open>theta\<close> within
  \<open>[MIN, MAX]\<close>, whether or not the sum overflows.
\<close>

theorem cos_is_sin_of_wrapped_sum:
  assumes "createFixedPoint SIN_LUT_Q16 cfg = Inr ops"
  shows "case ops of
           BigIntOps fmt c \<Rightarrow>
             cos_bigint SIN_LUT_Q16 fmt c theta
               = sin_bigint SIN_LUT_Q16 c (add_bigint fmt theta (PI_HALF c))
         | NumberOps fmt c \<Rightarrow>
             MIN_bigint fmt \<le> theta \<and> theta \<le> MAX_bigint fmt \<longrightarrow>
               (\<exists>p. PI_HALF c = Fin (of_int p) \<and>
                  add_number fmt (Fin (of_int theta)) (PI_HALF c)
                    = Inr (Fin (of_int (wrapBigInt fmt (theta + p)))) \<and>
                  cos_number SIN_LUT_Q16 fmt c (Fin (of_int theta))
                    = sin_number SIN_LUT_Q16 c (Fin (of_int (wrapBigInt fmt (theta + p)))))"
proof (cases ops)
  case (BigIntOps fmt c)
  then show ?thesis by (simp add: cos_bigint_def add_bigint_def)
next
  case (NumberOps fmt c)
  from assms(1) NumberOps have "createFixedPoint SIN_LUT_Q16 cfg = Inr (NumberOps fmt c)" by simp
  note f = NumberOps_facts [OF this]
  note t = f(1,2)
  from f(6) obtain q where ph: "PI_HALF c = Fin (of_int q)" and b: "\<bar>q\<bar> \<le> 2147483648"
    by blast
  have "\<exists>p. PI_HALF c = Fin (of_int p) \<and>
          add_number fmt (Fin (of_int theta)) (PI_HALF c)
            = Inr (Fin (of_int (wrapBigInt fmt (theta + p)))) \<and>
          cos_number SIN_LUT_Q16 fmt c (Fin (of_int theta))
            = sin_number SIN_LUT_Q16 c (Fin (of_int (wrapBigInt fmt (theta + p))))"
    if "MIN_bigint fmt \<le> theta" "theta \<le> MAX_bigint fmt"
  proof -
    have "\<bar>theta\<bar> \<le> 2147483648" using t that by (rule abs_in_range)
    with b have s: "\<bar>theta + q\<bar> < 2 ^ 53" by simp
    have a: "add_number fmt (Fin (of_int theta)) (PI_HALF c)
        = Inr (Fin (of_int (wrapBigInt fmt (theta + q))))"
      unfolding ph using add_number_int [OF t s] by (simp add: add_bigint_def)
    have "num_add (Fin (of_int theta)) (PI_HALF c) = Fin (of_int (theta + q))"
      unfolding ph using fl_int [OF s] by simp
    then have "cos_number SIN_LUT_Q16 fmt c (Fin (of_int theta))
        = sin_number SIN_LUT_Q16 c (Fin (of_int (wrapBigInt fmt (theta + q))))"
      by (simp only: cos_number_def wrapNumber_int [OF t] bindE_Inr)
    with ph a show ?thesis by blast
  qed
  then show ?thesis by (simp add: NumberOps)
qed

theorem cos_is_sin_of_wrapped_sum_witness:
  "cos_bigint sample_lut (format_of 16 64 True)
     \<lparr> TWO_PI = 411775, PI_HALF = 102944, sinLut = [0, 65536, 0, - 65536] \<rparr> 0
   = sin_bigint sample_lut
     \<lparr> TWO_PI = 411775, PI_HALF = 102944, sinLut = [0, 65536, 0, - 65536] \<rparr>
     (add_bigint (format_of 16 64 True) 0 102944) \<and>
   cos_number sample_lut (format_of 16 32 False)
     \<lparr> TWO_PI = Fin 411775, PI_HALF = Fin 102944,
       sinLut = [Fin 0, Fin 65536, Fin 0, Fin (- 65536)] \<rparr> (Fin 2147483647)
   = sin_number sample_lut
     \<lparr> TWO_PI = Fin 411775, PI_HALF = Fin 102944,
       sinLut = [Fin 0, Fin 65536, Fin 0, Fin (- 65536)] \<rparr>
     (Fin (of_int (wrapBigInt (format_of 16 32 False) (2147483647 + 102944))))"
proof -
  have r: "MIN_bigint (format_of 16 32 False) \<le> 2147483647"
      "2147483647 \<le> MAX_bigint (format_of 16 32 False)"
    by (simp_all add: format_of_def MIN_bigint_def MAX_bigint_def)
  show ?thesis
    using cos_is_sin_of_wrapped_sum [OF createFixedPoint_16_64, of 0]
      cos_is_sin_of_wrapped_sum [OF createFixedPoint_default, of 2147483647] r
    by auto
qed

section \<open>Square root\<close>



















section \<open>The range invariant, division and the agreement of the backings\<close>

lemma in_range_wrapBigInt: "0 < totalBits fmt \<Longrightarrow> in_range fmt (wrapBigInt fmt v)"
  by (simp add: in_range_def wrapBigInt_range)

lemma in_range_number_of_int [simp]: "in_range_number fmt (Fin (of_int v)) = in_range fmt v"
  by (simp add: in_range_number_def)

lemma in_range_wrapNumber:
  assumes "0 < totalBits fmt" "totalBits fmt \<le> 32" "wrapNumber fmt x = Inr y"
  shows "in_range_number fmt y"
  using assms(3) by (rule wrapNumber_Inr [OF assms(1,2)]) (simp add: in_range_wrapBigInt [OF assms(1)])

lemma in_range_sdiv_ONE:
  assumes "0 < totalBits fmt" "in_range fmt a"
  shows "in_range fmt (a sdiv ONE_bigint fmt)"
proof -
  define P :: int where "P = 2 ^ (totalBits fmt - 1)"
  note h = wrapBigInt_half [OF assms(1) P_def]
  define d where "d = \<bar>a\<bar> div ONE_bigint fmt"
  have o: "0 < ONE_bigint fmt" by (simp add: ONE_bigint_def push_bit_eq_mult)
  have d0: "0 \<le> d" unfolding d_def using o by (simp add: pos_imp_zdiv_nonneg_iff)
  have "d \<le> \<bar>a\<bar> div 1" unfolding d_def using o by (intro zdiv_mono2) simp_all
  then have da: "d \<le> \<bar>a\<bar>" by simp
  have s: "a sdiv ONE_bigint fmt = sgn a * d"
    using o by (simp add: signed_divide_int_def d_def sgn_if)
  have r: "- P \<le> a" "a \<le> P - 1" using assms(2) by (simp_all add: in_range_def h(2,3))
  show ?thesis
    unfolding in_range_def h(2,3) s using d0 da r by (cases "0 \<le> a") (auto simp: sgn_if)
qed

text \<open>
  The range invariant on the bigint backing: every value an operation returns is in range.
  \<^verbatim>\<open>sin\<close> and \<^verbatim>\<open>cos\<close> are covered whenever they return a sample and not \<^verbatim>\<open>undefined\<close>.
\<close>

lemma range_invariant_bigint:
  assumes t: "0 < totalBits fmt"
  shows "fromInt_bigint fmt n = Inr r \<Longrightarrow> in_range fmt r"
    and "fromFloat_bigint fmt f = Inr r \<Longrightarrow> in_range fmt r"
    and "fromString_bigint fmt s = Inr r \<Longrightarrow> in_range fmt r"
    and "in_range fmt a \<Longrightarrow> toInt_bigint fmt a = Inr r \<Longrightarrow> in_range fmt r"
    and "in_range fmt (add_bigint fmt a b)"
    and "in_range fmt (sub_bigint fmt a b)"
    and "in_range fmt (negate_bigint fmt a)"
    and "in_range fmt a \<Longrightarrow> in_range fmt (abs_bigint fmt a)"
    and "in_range fmt (mul_bigint fmt a b)"
    and "div_bigint fmt a b = Inr r \<Longrightarrow> in_range fmt r"
    and "mod_bigint fmt a b = Inr r \<Longrightarrow> in_range fmt r"
    and "sqrt_bigint fmt a = Some (Inr r) \<Longrightarrow> in_range fmt r"
proof -
  note w = in_range_wrapBigInt [OF t]
  show "fromInt_bigint fmt n = Inr r \<Longrightarrow> in_range fmt r"
    using w by (auto simp: fromInt_bigint_def bindE_eq_Inr)
  show "fromFloat_bigint fmt f = Inr r \<Longrightarrow> in_range fmt r"
    using w by (auto simp: fromFloat_bigint_def bindE_eq_Inr)
  show "fromString_bigint fmt s = Inr r \<Longrightarrow> in_range fmt r"
    using w by (auto simp: fromString_bigint_def bindE_eq_Inr)
  show "in_range fmt a \<Longrightarrow> toInt_bigint fmt a = Inr r \<Longrightarrow> in_range fmt r"
    using in_range_sdiv_ONE [OF t, of a]
    by (auto simp: toInt_bigint_def bigint_div_def split: if_splits)
  show "in_range fmt (add_bigint fmt a b)" "in_range fmt (sub_bigint fmt a b)"
    "in_range fmt (negate_bigint fmt a)" "in_range fmt (mul_bigint fmt a b)"
    using w by (simp_all add: add_bigint_def sub_bigint_def negate_bigint_def mul_bigint_def)
  show "in_range fmt a \<Longrightarrow> in_range fmt (abs_bigint fmt a)"
    using w by (simp add: abs_bigint_def)
  show "div_bigint fmt a b = Inr r \<Longrightarrow> in_range fmt r"
    using w by (auto simp: div_bigint_def bindE_eq_Inr split: if_splits)
  show "mod_bigint fmt a b = Inr r \<Longrightarrow> in_range fmt r"
    using w by (auto simp: mod_bigint_def bindE_eq_Inr split: if_splits)
  show "sqrt_bigint fmt a = Some (Inr r) \<Longrightarrow> in_range fmt r"
    using w by (auto simp: sqrt_bigint_def Let_def split: if_splits option.splits sum.splits)
qed

lemma range_invariant_sin_bigint:
  assumes "0 < totalBits fmt" "bigIntLut SIN_LUT_Q16 fmt = Inr c"
  shows "sin_bigint SIN_LUT_Q16 c theta = Inr (Some r) \<Longrightarrow> in_range fmt r"
    and "cos_bigint SIN_LUT_Q16 fmt c theta = Inr (Some r) \<Longrightarrow> in_range fmt r"
proof -
  have e: "in_range fmt r" if "sin_bigint SIN_LUT_Q16 c x = Inr (Some r)" for x
  proof -
    from that obtain i where i: "array_get (sinLut c) i = Some r"
      by (auto simp: sin_bigint_def bindE_eq_Inr)
    then have "0 \<le> i" "nat i < length (sinLut c)" "r = sinLut c ! nat i"
      by (auto simp: array_get_def split: if_splits)
    with bigIntLut_Inr(1,2) [OF assms(2)] obtain v where "r = wrapBigInt fmt v"
      by (metis)
    then show ?thesis by (simp add: in_range_wrapBigInt [OF assms(1)])
  qed
  show "sin_bigint SIN_LUT_Q16 c theta = Inr (Some r) \<Longrightarrow> in_range fmt r" by (rule e)
  show "cos_bigint SIN_LUT_Q16 fmt c theta = Inr (Some r) \<Longrightarrow> in_range fmt r"
    unfolding cos_bigint_def by (rule e)
qed

text \<open>The same on the number backing, where \<open>totalBits\<close> is at most 32.\<close>

lemma range_invariant_number:
  assumes t: "0 < totalBits fmt" "totalBits fmt \<le> 32" "fractionBits fmt < totalBits fmt"
  shows "fromInt_number fmt n = Inr r \<Longrightarrow> in_range_number fmt r"
    and "fromFloat_number fmt f = Inr r \<Longrightarrow> in_range_number fmt r"
    and "fromString_number fmt s = Inr r \<Longrightarrow> in_range_number fmt r"
    and "in_range fmt a \<Longrightarrow> in_range_number fmt (toInt_number fmt (Fin (of_int a)))"
    and "add_number fmt x y = Inr r \<Longrightarrow> in_range_number fmt r"
    and "sub_number fmt x y = Inr r \<Longrightarrow> in_range_number fmt r"
    and "negate_number fmt x = Inr r \<Longrightarrow> in_range_number fmt r"
    and "in_range_number fmt x \<Longrightarrow> abs_number fmt x = Inr r \<Longrightarrow> in_range_number fmt r"
    and "mul_number fmt x y = Inr r \<Longrightarrow> in_range_number fmt r"
    and "div_number fmt x y = Inr r \<Longrightarrow> in_range_number fmt r"
    and "mod_number fmt x y = Inr r \<Longrightarrow> in_range_number fmt r"
    and "sqrt_number fmt x = Some (Inr r) \<Longrightarrow> in_range_number fmt r"
proof -
  note w = in_range_wrapNumber [OF t(1,2)]
  show "fromInt_number fmt n = Inr r \<Longrightarrow> in_range_number fmt r"
    using w by (auto simp: fromInt_number_def bindE_eq_Inr)
  show "fromFloat_number fmt f = Inr r \<Longrightarrow> in_range_number fmt r"
    using w by (auto simp: fromFloat_number_def)
  show "fromString_number fmt s = Inr r \<Longrightarrow> in_range_number fmt r"
    using w by (auto simp: fromString_number_def bindE_eq_Inr)
  show "in_range_number fmt (toInt_number fmt (Fin (of_int a)))" if a: "in_range fmt a"
  proof -
    have "\<bar>a\<bar> \<le> 2147483648" using t(1,2) a unfolding in_range_def by (elim conjE) (rule abs_in_range)
    then have "\<bar>a\<bar> < 2 ^ 53" by simp
    then have f: "fl (of_int a / 2 ^ fractionBits fmt) = Fin (of_int a / 2 ^ fractionBits fmt)"
      using t by (intro fl_int_div_pow2) simp_all
    have one: "ONE_number fmt = Fin (2 ^ fractionBits fmt)"
      using ONE_number_exact [of fmt] t by (simp add: ONE_bigint_def push_bit_eq_mult)
    have "trunc (of_int a / of_int (2 ^ fractionBits fmt)) = a sdiv 2 ^ fractionBits fmt"
      by (rule trunc_divide) simp
    then have "toInt_number fmt (Fin (of_int a)) = Fin (of_int (a sdiv ONE_bigint fmt))"
      using f by (simp add: toInt_number_def one ONE_bigint_def push_bit_eq_mult)
    then show ?thesis using in_range_sdiv_ONE [OF t(1) a] by simp
  qed
  show "add_number fmt x y = Inr r \<Longrightarrow> in_range_number fmt r"
    using w by (auto simp: add_number_def bindE_eq_Inr)
  show "sub_number fmt x y = Inr r \<Longrightarrow> in_range_number fmt r"
    using w by (auto simp: sub_number_def bindE_eq_Inr)
  show "negate_number fmt x = Inr r \<Longrightarrow> in_range_number fmt r"
    using w by (auto simp: negate_number_def bindE_eq_Inr)
  show "in_range_number fmt x \<Longrightarrow> abs_number fmt x = Inr r \<Longrightarrow> in_range_number fmt r"
    using w by (auto simp: abs_number_def bindE_eq_Inr split: if_splits)
  show "mul_number fmt x y = Inr r \<Longrightarrow> in_range_number fmt r"
    using w by (auto simp: mul_number_def bindE_eq_Inr Let_def)
  show "div_number fmt x y = Inr r \<Longrightarrow> in_range_number fmt r"
    using w by (auto simp: div_number_def bindE_eq_Inr split: if_splits)
  show "mod_number fmt x y = Inr r \<Longrightarrow> in_range_number fmt r"
    using w by (auto simp: mod_number_def bindE_eq_Inr split: if_splits)
  show "sqrt_number fmt x = Some (Inr r) \<Longrightarrow> in_range_number fmt r"
    using w by (auto simp: sqrt_number_def bindE_eq_Inr split: if_splits option.splits sum.splits)
qed

lemma range_invariant_sin_number:
  assumes "createFixedPoint SIN_LUT_Q16 cfg = Inr (NumberOps fmt c)"
  shows "sin_number SIN_LUT_Q16 c theta = Inr (Some r) \<Longrightarrow> in_range_number fmt r"
    and "cos_number SIN_LUT_Q16 fmt c theta = Inr (Some r) \<Longrightarrow> in_range_number fmt r"
proof -
  note f = NumberOps_facts [OF assms]
  have e: "in_range_number fmt r" if "sin_number SIN_LUT_Q16 c x = Inr (Some r)" for x
  proof -
    from that obtain i where "array_get_number (sinLut c) i = Some r"
      by (auto simp: sin_number_def bindE_eq_Inr)
    then obtain k where "array_get (sinLut c) k = Some r"
      by (auto simp: array_get_number_def split: sum.splits)
    then have "0 \<le> k" "nat k < length (sinLut c)" "r = sinLut c ! nat k"
      by (auto simp: array_get_def split: if_splits)
    with f(4) f(7) [of "nat k"] obtain v where "r = Fin (of_int (wrapBigInt fmt v))"
      by auto
    then show ?thesis by (simp add: in_range_wrapBigInt [OF f(1)])
  qed
  show "sin_number SIN_LUT_Q16 c theta = Inr (Some r) \<Longrightarrow> in_range_number fmt r" by (rule e)
  show "cos_number SIN_LUT_Q16 fmt c theta = Inr (Some r) \<Longrightarrow> in_range_number fmt r"
    unfolding cos_number_def by (auto simp: bindE_eq_Inr intro: e)
qed

text \<open>
  Division and modulo: the error is raised exactly for a zero divisor, on both backings.
  The bigint-backed results are the wraps of the truncated quotient and remainder, and so
  are the number-backed ones while the quotient stays below \<open>2 ^ 53\<close>.
\<close>

lemma div_mod_bigint:
  shows "div_bigint fmt a b = Inl DivisionByZero \<longleftrightarrow> b = 0"
    and "mod_bigint fmt a b = Inl DivisionByZero \<longleftrightarrow> b = 0"
    and "b \<noteq> 0 \<Longrightarrow> div_bigint fmt a b = Inr (wrapBigInt fmt (push_bit (fractionBits fmt) a sdiv b))"
    and "b \<noteq> 0 \<Longrightarrow> mod_bigint fmt a b = Inr (wrapBigInt fmt (a smod b))"
  by (simp_all add: div_bigint_def mod_bigint_def bigint_div_def bigint_rem_def)

lemma Number_integer:
  assumes "\<bar>x\<bar> < 2 ^ 900"
  obtains y where "Number x = Fin (of_int y)"
proof (cases "\<bar>x\<bar> < 2 ^ 53")
  case True
  then show thesis using Number_exact that by blast
next
  case False
  then have x0: "0 < \<bar>x\<bar>" by simp
  have b1: "53 < bitlen \<bar>x\<bar>"
  proof (rule ccontr)
    assume "\<not> 53 < bitlen \<bar>x\<bar>"
    then have "nat (bitlen \<bar>x\<bar>) \<le> 53" by simp
    then have "(2::int) ^ nat (bitlen \<bar>x\<bar>) \<le> 2 ^ 53" by (intro power_increasing) simp_all
    with bitlen_bounds [OF x0] False show False by linarith
  qed
  have b2: "bitlen \<bar>x\<bar> \<le> 900"
  proof (rule ccontr)
    assume "\<not> bitlen \<bar>x\<bar> \<le> 900"
    then have "900 \<le> nat (bitlen \<bar>x\<bar> - 1)" by simp
    then have "(2::int) ^ 900 \<le> 2 ^ nat (bitlen \<bar>x\<bar> - 1)" by (intro power_increasing) simp_all
    with bitlen_bounds [OF x0] assms show False by linarith
  qed
  define k where "k = nat (bitlen \<bar>x\<bar> - 53)"
  have "bitlen \<bar>x\<bar> = 53 + int k" "0 < k" "k \<le> 900" using b1 b2 by (simp_all add: k_def)
  from Number_large [OF this] show thesis using that by blast
qed

lemma abs_sdiv: "\<bar>x sdiv y\<bar> = \<bar>x\<bar> div \<bar>y\<bar>" for x y :: int
proof -
  have "0 \<le> \<bar>x\<bar> div \<bar>y\<bar>"
    by (cases "y = 0") (simp_all add: pos_imp_zdiv_nonneg_iff)
  then have "\<bar>\<bar>x\<bar> div \<bar>y\<bar>\<bar> = \<bar>x\<bar> div \<bar>y\<bar>" by simp
  then show ?thesis
    by (cases "x = 0"; cases "y = 0") (simp_all add: signed_divide_int_def abs_mult abs_sgn_eq)
qed

lemma abs_smod: "\<bar>x smod y\<bar> = \<bar>x\<bar> mod \<bar>y\<bar>" for x y :: int
proof -
  have "0 \<le> \<bar>x\<bar> mod \<bar>y\<bar>" by (cases "y = 0") simp_all
  then have "\<bar>\<bar>x\<bar> mod \<bar>y\<bar>\<bar> = \<bar>x\<bar> mod \<bar>y\<bar>" by simp
  then show ?thesis
    by (cases "x = 0") (simp_all add: signed_modulo_int_def abs_mult abs_sgn_eq)
qed

lemma div_mod_number:
  assumes t: "0 < totalBits fmt" "totalBits fmt \<le> 32" "fractionBits fmt < totalBits fmt"
    and a: "in_range fmt a"
  shows "div_number fmt (Fin (of_int a)) (Fin (of_int b)) = Inl DivisionByZero \<longleftrightarrow> b = 0"
    and "mod_number fmt (Fin (of_int a)) (Fin (of_int b)) = Inl DivisionByZero \<longleftrightarrow> b = 0"
    and "b \<noteq> 0 \<Longrightarrow> \<exists>r. div_number fmt (Fin (of_int a)) (Fin (of_int b)) = Inr r"
    and "b \<noteq> 0 \<Longrightarrow> \<bar>push_bit (fractionBits fmt) a sdiv b\<bar> < 2 ^ 53 \<Longrightarrow>
           div_number fmt (Fin (of_int a)) (Fin (of_int b))
             = Inr (Fin (of_int (wrapBigInt fmt (push_bit (fractionBits fmt) a sdiv b))))"
    and "b \<noteq> 0 \<Longrightarrow> mod_number fmt (Fin (of_int a)) (Fin (of_int b))
             = Inr (Fin (of_int (wrapBigInt fmt (a smod b))))"
proof -
  note w = wrapNumber_int [OF t(1,2)]
  have a31: "\<bar>a\<bar> \<le> 2147483648"
    using t(1,2) a unfolding in_range_def by (elim conjE) (rule abs_in_range)
  define q where "q = push_bit (fractionBits fmt) a sdiv b"
  have d: "div_number fmt (Fin (of_int a)) (Fin (of_int b)) = wrapNumber fmt (Number q)" if "b \<noteq> 0"
    using that by (simp add: div_number_def bigint_div_def q_def)
  have m: "mod_number fmt (Fin (of_int a)) (Fin (of_int b)) = wrapNumber fmt (Number (a smod b))" if "b \<noteq> 0"
    using that by (simp add: mod_number_def bigint_rem_def)
  have qb: "\<bar>q\<bar> < 2 ^ 900"
  proof -
    have "\<bar>q\<bar> = \<bar>push_bit (fractionBits fmt) a\<bar> div \<bar>b\<bar>"
      unfolding q_def by (rule abs_sdiv)
    also have "\<dots> \<le> \<bar>push_bit (fractionBits fmt) a\<bar> div 1"
    proof (cases "b = 0")
      case True
      then show ?thesis by simp
    next
      case False
      then show ?thesis by (intro zdiv_mono2) simp_all
    qed
    also have "\<dots> = \<bar>a\<bar> * 2 ^ fractionBits fmt" by (simp add: push_bit_eq_mult abs_mult)
    also have "\<dots> \<le> 2147483648 * 2 ^ 32"
      using a31 t by (intro mult_mono power_increasing) simp_all
    finally show ?thesis by simp
  qed
  have sm: "\<bar>a smod b\<bar> < 2 ^ 53"
  proof -
    have "\<bar>a smod b\<bar> = \<bar>a\<bar> mod \<bar>b\<bar>" by (rule abs_smod)
    also have "\<dots> \<le> \<bar>a\<bar>" by (simp add: zmod_le_nonneg_dividend)
    finally show ?thesis using a31 by simp
  qed
  show "div_number fmt (Fin (of_int a)) (Fin (of_int b)) = Inl DivisionByZero \<longleftrightarrow> b = 0"
  proof (cases "b = 0")
    case True
    then show ?thesis by (simp add: div_number_def assertInteger_def)
  next
    case False
    from Number_integer [OF qb] obtain y where "Number q = Fin (of_int y)" .
    with False show ?thesis by (simp add: d w)
  qed
  show "mod_number fmt (Fin (of_int a)) (Fin (of_int b)) = Inl DivisionByZero \<longleftrightarrow> b = 0"
  proof (cases "b = 0")
    case True
    then show ?thesis by (simp add: mod_number_def assertInteger_def)
  next
    case False
    then show ?thesis by (simp add: m Number_exact [OF sm] w)
  qed
  show "\<exists>r. div_number fmt (Fin (of_int a)) (Fin (of_int b)) = Inr r" if "b \<noteq> 0"
  proof -
    from Number_integer [OF qb] obtain y where "Number q = Fin (of_int y)" .
    with that show ?thesis by (simp add: d w)
  qed
  show "div_number fmt (Fin (of_int a)) (Fin (of_int b))
          = Inr (Fin (of_int (wrapBigInt fmt (push_bit (fractionBits fmt) a sdiv b))))"
    if "b \<noteq> 0" "\<bar>push_bit (fractionBits fmt) a sdiv b\<bar> < 2 ^ 53"
    using that(1) Number_exact [OF that(2)] by (simp add: d w flip: q_def)
  show "mod_number fmt (Fin (of_int a)) (Fin (of_int b))
          = Inr (Fin (of_int (wrapBigInt fmt (a smod b))))" if "b \<noteq> 0"
    using that by (simp add: m Number_exact [OF sm] w)
qed

text \<open>
  Where the two backings do agree: on scaled integers in range, the number-backed
  operation returns the number of the integer that the bigint-backed one returns, for
  \<open>mul\<close> and \<open>div\<close> as long as the shifted product and the quotient stay below \<open>2 ^ 53\<close>.
\<close>

lemma backings_agree:
  assumes t: "0 < totalBits fmt" "totalBits fmt \<le> 32" "fractionBits fmt < totalBits fmt"
    and a: "in_range fmt a" and b: "in_range fmt b"
  shows "add_number fmt (Fin (of_int a)) (Fin (of_int b)) = Inr (Fin (of_int (add_bigint fmt a b)))"
    and "sub_number fmt (Fin (of_int a)) (Fin (of_int b)) = Inr (Fin (of_int (sub_bigint fmt a b)))"
    and "negate_number fmt (Fin (of_int a)) = Inr (Fin (of_int (negate_bigint fmt a)))"
    and "abs_number fmt (Fin (of_int a)) = Inr (Fin (of_int (abs_bigint fmt a)))"
    and "\<bar>drop_bit (fractionBits fmt) (a * b)\<bar> < 2 ^ 53 \<Longrightarrow>
           mul_number fmt (Fin (of_int a)) (Fin (of_int b)) = Inr (Fin (of_int (mul_bigint fmt a b)))"
    and "b = 0 \<or> \<bar>push_bit (fractionBits fmt) a sdiv b\<bar> < 2 ^ 53 \<Longrightarrow>
           div_number fmt (Fin (of_int a)) (Fin (of_int b))
             = bindE (div_bigint fmt a b) (\<lambda>r. Inr (Fin (of_int r)))"
    and "mod_number fmt (Fin (of_int a)) (Fin (of_int b))
             = bindE (mod_bigint fmt a b) (\<lambda>r. Inr (Fin (of_int r)))"
    and "Inr (toInt_number fmt (Fin (of_int a)))
             = bindE (toInt_bigint fmt a) (\<lambda>r. Inr (Fin (of_int r)))"
proof -
  note w = wrapNumber_int [OF t(1,2)]
  have a31: "\<bar>a\<bar> \<le> 2147483648"
    using t(1,2) a unfolding in_range_def by (elim conjE) (rule abs_in_range)
  have b31: "\<bar>b\<bar> \<le> 2147483648"
    using t(1,2) b unfolding in_range_def by (elim conjE) (rule abs_in_range)
  have s: "\<bar>a + b\<bar> < 2 ^ 53" "\<bar>a - b\<bar> < 2 ^ 53" "\<bar>- a\<bar> < 2 ^ 53" "\<bar>a\<bar> < 2 ^ 53"
    using a31 b31 by simp_all
  show "add_number fmt (Fin (of_int a)) (Fin (of_int b)) = Inr (Fin (of_int (add_bigint fmt a b)))"
    using t(1,2) s(1) by (rule add_number_int)
  show "sub_number fmt (Fin (of_int a)) (Fin (of_int b)) = Inr (Fin (of_int (sub_bigint fmt a b)))"
    using t(1,2) s(2) by (rule sub_number_int)
  have n: "wrapNumber fmt (num_neg (Fin (of_int a))) = Inr (Fin (of_int (wrapBigInt fmt (- a))))"
    using w [of "- a"] by simp
  show "negate_number fmt (Fin (of_int a)) = Inr (Fin (of_int (negate_bigint fmt a)))"
    by (simp only: negate_number_def negate_bigint_def assertInteger_of_int bindE_Inr n)
  show "abs_number fmt (Fin (of_int a)) = Inr (Fin (of_int (abs_bigint fmt a)))"
    by (simp only: abs_number_def abs_bigint_def assertInteger_of_int bindE_Inr n) simp
  show "mul_number fmt (Fin (of_int a)) (Fin (of_int b)) = Inr (Fin (of_int (mul_bigint fmt a b)))"
    if "\<bar>drop_bit (fractionBits fmt) (a * b)\<bar> < 2 ^ 53"
    using Number_exact [OF that] by (simp add: mul_number_def mul_bigint_def w)
  show "div_number fmt (Fin (of_int a)) (Fin (of_int b))
          = bindE (div_bigint fmt a b) (\<lambda>r. Inr (Fin (of_int r)))"
    if "b = 0 \<or> \<bar>push_bit (fractionBits fmt) a sdiv b\<bar> < 2 ^ 53"
  proof (cases "b = 0")
    case True
    then show ?thesis by (simp add: div_number_def div_bigint_def assertInteger_def)
  next
    case False
    with that show ?thesis
      using div_mod_number(4) [OF t a, of b] by (simp add: div_mod_bigint(3))
  qed
  show "mod_number fmt (Fin (of_int a)) (Fin (of_int b))
          = bindE (mod_bigint fmt a b) (\<lambda>r. Inr (Fin (of_int r)))"
  proof (cases "b = 0")
    case True
    then show ?thesis by (simp add: mod_number_def mod_bigint_def assertInteger_def)
  next
    case False
    then show ?thesis
      using div_mod_number(5) [OF t a, of b] by (simp add: div_mod_bigint(4))
  qed
  show "Inr (toInt_number fmt (Fin (of_int a)))
          = bindE (toInt_bigint fmt a) (\<lambda>r. Inr (Fin (of_int r)))"
  proof -
    have f: "fl (of_int a / 2 ^ fractionBits fmt) = Fin (of_int a / 2 ^ fractionBits fmt)"
      using s(4) t by (intro fl_int_div_pow2) simp_all
    have one: "ONE_number fmt = Fin (2 ^ fractionBits fmt)"
      using ONE_number_exact [of fmt] t by (simp add: ONE_bigint_def push_bit_eq_mult)
    have "trunc (of_int a / of_int (2 ^ fractionBits fmt)) = a sdiv 2 ^ fractionBits fmt"
      by (rule trunc_divide) simp
    then have "toInt_number fmt (Fin (of_int a)) = Fin (of_int (a sdiv ONE_bigint fmt))"
      using f by (simp add: toInt_number_def one ONE_bigint_def push_bit_eq_mult)
    then show ?thesis
      by (simp add: toInt_bigint_def bigint_div_def ONE_bigint_def push_bit_eq_mult)
  qed
qed

text \<open>
  With 10 to 21 fraction bits, the default 16 among them, no product or quotient of
  scaled integers in range reaches \<open>2 ^ 53\<close>: there \<open>mul\<close> and \<open>div\<close> agree as well.
\<close>

lemma backings_agree_mul_div:
  assumes t: "0 < totalBits fmt" "totalBits fmt \<le> 32" "fractionBits fmt < totalBits fmt"
    and f: "10 \<le> fractionBits fmt" "fractionBits fmt \<le> 21"
    and a: "in_range fmt a" and b: "in_range fmt b"
  shows "mul_number fmt (Fin (of_int a)) (Fin (of_int b)) = Inr (Fin (of_int (mul_bigint fmt a b)))"
    and "div_number fmt (Fin (of_int a)) (Fin (of_int b))
           = bindE (div_bigint fmt a b) (\<lambda>r. Inr (Fin (of_int r)))"
proof -
  have a31: "\<bar>a\<bar> \<le> 2147483648"
    using t(1,2) a unfolding in_range_def by (elim conjE) (rule abs_in_range)
  have b31: "\<bar>b\<bar> \<le> 2147483648"
    using t(1,2) b unfolding in_range_def by (elim conjE) (rule abs_in_range)
  have "\<bar>a * b\<bar> \<le> 2147483648 * 2147483648"
    unfolding abs_mult using a31 b31 by (intro mult_mono) simp_all
  then have ab: "\<bar>a * b\<bar> \<le> 2 ^ 62" by simp
  have "\<bar>drop_bit (fractionBits fmt) (a * b)\<bar> \<le> 2 ^ 52"
  proof -
    have p: "(2::int) ^ 62 = 2 ^ (62 - fractionBits fmt) * 2 ^ fractionBits fmt"
      using f by (simp flip: power_add)
    have le: "(2::int) ^ (62 - fractionBits fmt) \<le> 2 ^ 52"
      using f by (intro power_increasing) simp_all
    have "a * b div 2 ^ fractionBits fmt \<le> 2 ^ 62 div 2 ^ fractionBits fmt"
      using ab by (intro zdiv_mono1) simp_all
    moreover have "(- (2 ^ 62)) div 2 ^ fractionBits fmt \<le> a * b div 2 ^ fractionBits fmt"
      using ab by (intro zdiv_mono1) simp_all
    moreover have "(2::int) ^ 62 div 2 ^ fractionBits fmt = 2 ^ (62 - fractionBits fmt)"
      by (subst p) simp
    moreover have "(- ((2::int) ^ 62)) div 2 ^ fractionBits fmt = - (2 ^ (62 - fractionBits fmt))"
      by (subst p) (simp flip: mult_minus_left)
    ultimately show ?thesis using le by (simp add: drop_bit_eq_div)
  qed
  then have m: "\<bar>drop_bit (fractionBits fmt) (a * b)\<bar> < 2 ^ 53" by simp
  show "mul_number fmt (Fin (of_int a)) (Fin (of_int b)) = Inr (Fin (of_int (mul_bigint fmt a b)))"
    using backings_agree(5) [OF t a b m] .
  have "\<bar>push_bit (fractionBits fmt) a sdiv b\<bar> \<le> \<bar>push_bit (fractionBits fmt) a\<bar>"
  proof (cases "b = 0")
    case True
    then show ?thesis by simp
  next
    case False
    have "\<bar>push_bit (fractionBits fmt) a\<bar> div \<bar>b\<bar> \<le> \<bar>push_bit (fractionBits fmt) a\<bar> div 1"
      using False by (intro zdiv_mono2) simp_all
    then show ?thesis by (simp add: abs_sdiv)
  qed
  also have "\<dots> = \<bar>a\<bar> * 2 ^ fractionBits fmt" by (simp add: push_bit_eq_mult abs_mult)
  also have "\<dots> \<le> 2147483648 * 2 ^ 21"
    using a31 f by (intro mult_mono power_increasing) simp_all
  finally have "\<bar>push_bit (fractionBits fmt) a sdiv b\<bar> < 2 ^ 53" by simp
  then show "div_number fmt (Fin (of_int a)) (Fin (of_int b))
           = bindE (div_bigint fmt a b) (\<lambda>r. Inr (Fin (of_int r)))"
    using backings_agree(6) [OF t a b] by simp
qed

section \<open>Rounding in the parser\<close>

text \<open>
  What \<^verbatim>\<open>parseFixedPointString\<close> computes from the signed numerator \<open>x\<close> and the
  denominator \<open>d\<close>, a power of ten: \<open>\<lfloor>x / d + 1 / 2\<rfloor>\<close>, the nearest integer with every tie,
  of either sign, going up.
\<close>

lemma floorDiv_positive:
  assumes "0 < b"
  shows "floorDiv a b = Inr (a div b)"
proof -
  have b0: "b \<noteq> 0" "sgn b = 1" using assms by simp_all
  have r: "a smod b = 0 \<longleftrightarrow> b dvd a"
    using assms by (cases "a = 0") (simp_all add: signed_modulo_int_def mod_eq_0_iff_dvd sgn_if)
  have d: "a div b = a sdiv b - of_bool (b \<noteq> 0 \<and> sgn a \<noteq> sgn b \<and> \<not> b dvd a)"
    by (rule divide_int_eq_signed_divide_int)
  show ?thesis
  proof (cases "b dvd a")
    case True
    with r d b0 show ?thesis by (simp add: floorDiv_def bigint_div_def bigint_rem_def)
  next
    case False
    then have "a \<noteq> 0" by auto
    with False r d b0 show ?thesis
      by (cases "a < 0") (simp_all add: floorDiv_def bigint_div_def bigint_rem_def sgn_if)
  qed
qed

lemma parse_rounds_half_up:
  assumes "0 < d" "even d \<or> d = 1"
  shows "floorDiv (x + d sdiv 2) d = Inr \<lfloor>(of_int x :: rat) / of_int d + 1 / 2\<rfloor>"
proof -
  have h: "(of_int x :: rat) / of_int d + 1 / 2 = of_int (2 * x + d) / of_int (2 * d)"
    using assms(1) by (simp add: add_divide_distrib)
  have f: "\<lfloor>(of_int x :: rat) / of_int d + 1 / 2\<rfloor> = (2 * x + d) div (2 * d)"
    unfolding h by (rule floor_divide_of_int_eq)
  from assms(2) show ?thesis
  proof
    assume "even d"
    then obtain k where k: "d = 2 * k" by (elim evenE)
    then have k0: "0 < k" using assms(1) by simp
    have "d sdiv 2 = k" using k0 by (simp add: k signed_divide_int_def sgn_if)
    moreover have "(2 * x + d) div (2 * d) = (x + k) div d"
    proof -
      have "2 * x + d = 2 * (x + k)" by (simp add: k)
      then have "(2 * x + d) div (2 * d) = (2 * (x + k)) div (2 * d)" by (simp only:)
      also have "\<dots> = (x + k) div d" by (rule div_mult_mult1) simp
      finally show ?thesis .
    qed
    ultimately show ?thesis using assms(1) by (simp add: floorDiv_positive f)
  next
    assume d1: "d = 1"
    have "(2 * x + 1) div 2 = x" by simp
    then show ?thesis unfolding f by (simp add: d1 floorDiv_positive signed_divide_int_def)
  qed
qed

lemma trim_no_white_space:
  assumes "\<forall>c \<in> set s. \<not> isWhiteSpace c"
  shows "trim s = s"
proof (cases "s = []")
  case True
  then show ?thesis by (simp add: trim_def)
next
  case False
  then have "\<not> isWhiteSpace (hd s)" "\<not> isWhiteSpace (last s)" using assms by simp_all
  then have a: "dropWhile isWhiteSpace s = s" "dropWhile isWhiteSpace (rev s) = rev s"
    using False by (simp_all add: dropWhile_eq_self_iff hd_rev)
  show ?thesis by (simp add: trim_def a)
qed

lemma split_no_separator: "c \<notin> set xs \<Longrightarrow> split c xs = [xs]"
  by (induction xs) auto

lemma split_at_separator: "c \<notin> set xs \<Longrightarrow> split c (xs @ c # ys) = xs # split c ys"
  by (induction xs) auto

lemma digit_facts:
  assumes "isDigit c"
  shows "\<not> isWhiteSpace c" and "c \<noteq> CHR ''.''" and "c \<noteq> CHR ''+''" and "c \<noteq> CHR ''-''"
  using assms by (auto simp: isDigit_def isWhiteSpace_def)

lemma digits_facts:
  assumes "list_all isDigit ds"
  shows "\<forall>c \<in> set ds. \<not> isWhiteSpace c" and "CHR ''.'' \<notin> set ds"
    and "ds \<noteq> [] \<Longrightarrow> hd ds \<noteq> CHR ''+'' \<and> hd ds \<noteq> CHR ''-''"
proof -
  have d: "isDigit c" if "c \<in> set ds" for c using assms that by (simp add: list_all_iff)
  show "\<forall>c \<in> set ds. \<not> isWhiteSpace c" using d digit_facts(1) by blast
  show "CHR ''.'' \<notin> set ds" using d digit_facts(2) by blast
  show "hd ds \<noteq> CHR ''+'' \<and> hd ds \<noteq> CHR ''-''" if "ds \<noteq> []"
    using d [of "hd ds"] that digit_facts(3,4) by auto
qed

lemma BigInt_of_digits_Nil [simp]: "BigInt_of_digits [] = 0"
  by (simp add: BigInt_of_digits_def)

lemma parse_after_sign:
  assumes tr: "trim value = sg @ body"
    and sg: "sg = [] \<or> sg = ''+'' \<or> sg = ''-''"
    and bd: "body \<noteq> []" "hd body \<noteq> CHR ''+''" "hd body \<noteq> CHR ''-''"
    and sp: "split CHR ''.'' body = ds # tl_parts" "tl_parts = [] \<and> fs = [] \<or> tl_parts = [fs]"
    and dg: "list_all isDigit ds" "list_all isDigit fs" "ds \<noteq> [] \<or> fs \<noteq> []"
  shows "parseFixedPointString value f =
     floorDiv ((if sg = ''-'' then - 1 else 1) *
                 push_bit f (BigInt_of_digits ds * 10 ^ length fs + BigInt_of_digits fs)
               + 10 ^ length fs sdiv 2) (10 ^ length fs)"
proof -
  have st: "hd (sg @ body) = (if sg = [] then hd body else hd sg)" using bd(1) by (cases sg) simp_all
  have rest: "drop (if hd (sg @ body) = CHR ''+'' \<or> hd (sg @ body) = CHR ''-'' then 1 else 0) (sg @ body) = body"
    using sg bd by (auto simp: st)
  have sign: "(if hd (sg @ body) = CHR ''-'' then - 1 else (1::int)) = (if sg = ''-'' then - 1 else 1)"
    using sg bd by (auto simp: st)
  have ne: "length (sg @ body) \<noteq> 0" using bd(1) by simp
  have parts: "\<not> 2 < length (ds # tl_parts)" "hd (ds # tl_parts) = ds"
    "(if length (ds # tl_parts) = 2 then (ds # tl_parts) ! 1 else []) = fs"
    using sp(2) by auto
  have ip: "(if ds = [] then 0 else BigInt_of_digits ds) = BigInt_of_digits ds" by simp
  have fp: "(if fs = [] then 0 else BigInt_of_digits fs) = BigInt_of_digits fs" by simp
  have dn: "(if fs = [] then 1 else 10 ^ length fs) = (10::int) ^ length fs" by simp
  have ok: "\<not> (ds = [] \<and> fs = [])" "\<not> (\<not> list_all isDigit ds \<or> \<not> list_all isDigit fs)"
    using dg by simp_all
  show ?thesis
    unfolding parseFixedPointString_def Let_def tr
    by (simp only: ne if_False rest sign sp(1) parts ok ip fp dn)
qed

lemma trim_white_space:
  assumes "list_all isWhiteSpace ws1" "list_all isWhiteSpace ws2"
    and "\<forall>c \<in> set s. \<not> isWhiteSpace c" and "s \<noteq> []"
  shows "trim (ws1 @ s @ ws2) = s"
proof -
  have w1: "\<And>c. c \<in> set ws1 \<Longrightarrow> isWhiteSpace c" using assms(1) by (simp add: list_all_iff)
  have w2: "\<And>c. c \<in> set (rev ws2) \<Longrightarrow> isWhiteSpace c" using assms(2) by (simp add: list_all_iff)
  have "dropWhile isWhiteSpace (ws1 @ s @ ws2) = dropWhile isWhiteSpace (s @ ws2)"
    using w1 by (rule dropWhile_append2)
  moreover have "rev (dropWhile isWhiteSpace (rev (dropWhile isWhiteSpace (s @ ws2)))) = s"
  proof -
    have h: "\<not> isWhiteSpace (hd s)" "\<not> isWhiteSpace (last s)" using assms(3,4) by simp_all
    have a: "dropWhile isWhiteSpace (s @ ws2) = s @ ws2"
      using assms(4) h(1) by (simp add: dropWhile_eq_self_iff)
    have "dropWhile isWhiteSpace (rev ws2 @ rev s) = dropWhile isWhiteSpace (rev s)"
      using w2 by (rule dropWhile_append2)
    also have "\<dots> = rev s" using assms(4) h(2) by (simp add: dropWhile_eq_self_iff hd_rev)
    finally show ?thesis by (simp add: a)
  qed
  ultimately show ?thesis by (simp add: trim_def)
qed

lemma power_ten_even_or_one: "even ((10::int) ^ n) \<or> (10::int) ^ n = 1"
  by (cases n) simp_all

text \<open>
  \<^verbatim>\<open>parseFixedPointString\<close> on a well-formed literal: white space, an optional sign, the
  integer digits \<open>ds\<close> and, after a point, the fraction digits \<open>fs\<close>, with a digit on at
  least one side of the point. The result is \<open>\<lfloor>v * 2 ^ fractionBits + 1 / 2\<rfloor>\<close> for the exact
  value \<open>v\<close> of the literal.
\<close>

lemma parse_well_formed:
  assumes ws: "list_all isWhiteSpace ws1" "list_all isWhiteSpace ws2"
    and sg: "sg = [] \<or> sg = ''+'' \<or> sg = ''-''"
    and dg: "list_all isDigit ds" "list_all isDigit fs"
  shows "ds \<noteq> [] \<or> fs \<noteq> [] \<Longrightarrow>
           parseFixedPointString (ws1 @ (sg @ ds @ ''.'' @ fs) @ ws2) f
             = Inr \<lfloor>decimal_value (if sg = ''-'' then - 1 else 1) ds fs * 2 ^ f + 1 / 2\<rfloor>"
    and "ds \<noteq> [] \<Longrightarrow>
           parseFixedPointString (ws1 @ (sg @ ds) @ ws2) f
             = Inr \<lfloor>decimal_value (if sg = ''-'' then - 1 else 1) ds [] * 2 ^ f + 1 / 2\<rfloor>"
proof -
  define sign :: int where "sign = (if sg = ''-'' then - 1 else 1)"
  have nsg: "\<forall>c \<in> set sg. \<not> isWhiteSpace c" using sg by (auto simp: isWhiteSpace_def)
  note d1 = digits_facts [OF dg(1)] and d2 = digits_facts [OF dg(2)]
  have round: "floorDiv (sign * push_bit f (BigInt_of_digits ds * 10 ^ length gs + BigInt_of_digits gs)
                  + 10 ^ length gs sdiv 2) (10 ^ length gs)
      = Inr \<lfloor>decimal_value sign ds gs * 2 ^ f + 1 / 2\<rfloor>" for gs
  proof -
    let ?D = "(10::int) ^ length gs"
    let ?x = "sign * push_bit f (BigInt_of_digits ds * ?D + BigInt_of_digits gs)"
    have "(of_int ?x :: rat) / of_int ?D = decimal_value sign ds gs * 2 ^ f"
      by (simp add: decimal_value_def push_bit_eq_mult field_simps)
    then show ?thesis
      using parse_rounds_half_up [of ?D ?x] power_ten_even_or_one [of "length gs"] by simp
  qed
  show "parseFixedPointString (ws1 @ (sg @ ds @ ''.'' @ fs) @ ws2) f
          = Inr \<lfloor>decimal_value (if sg = ''-'' then - 1 else 1) ds fs * 2 ^ f + 1 / 2\<rfloor>"
    if ne: "ds \<noteq> [] \<or> fs \<noteq> []"
  proof -
    define body where "body = ds @ ''.'' @ fs"
    have nw: "\<forall>c \<in> set (sg @ body). \<not> isWhiteSpace c"
      using nsg d1(1) d2(1) by (auto simp: body_def isWhiteSpace_def)
    have tr: "trim (ws1 @ (sg @ body) @ ws2) = sg @ body"
      using ws nw by (rule trim_white_space) (simp add: body_def)
    have b: "body \<noteq> []" "hd body \<noteq> CHR ''+''" "hd body \<noteq> CHR ''-''"
      using d1(3) by (cases "ds = []"; simp add: body_def)+
    have sp: "split CHR ''.'' body = ds # [fs]"
      using d1(2) d2(2) by (simp add: body_def split_at_separator split_no_separator)
    have "parseFixedPointString (ws1 @ (sg @ body) @ ws2) f =
        floorDiv ((if sg = ''-'' then - 1 else 1) *
                 push_bit f (BigInt_of_digits ds * 10 ^ length fs + BigInt_of_digits fs)
               + 10 ^ length fs sdiv 2) (10 ^ length fs)"
      using tr sg b sp _ dg ne by (rule parse_after_sign) simp
    then show ?thesis
      using round [of fs] by (simp add: sign_def body_def)
  qed
  show "parseFixedPointString (ws1 @ (sg @ ds) @ ws2) f
          = Inr \<lfloor>decimal_value (if sg = ''-'' then - 1 else 1) ds [] * 2 ^ f + 1 / 2\<rfloor>"
    if ne: "ds \<noteq> []"
  proof -
    have nw: "\<forall>c \<in> set (sg @ ds). \<not> isWhiteSpace c"
      using nsg d1(1) by auto
    have tr: "trim (ws1 @ (sg @ ds) @ ws2) = sg @ ds"
      using ws nw by (rule trim_white_space) (simp add: ne)
    have b: "ds \<noteq> []" "hd ds \<noteq> CHR ''+''" "hd ds \<noteq> CHR ''-''"
      using d1(3) ne by simp_all
    have sp: "split CHR ''.'' ds = ds # []"
      using d1(2) by (simp add: split_no_separator)
    have e: "list_all isDigit []" by simp
    have "parseFixedPointString (ws1 @ (sg @ ds) @ ws2) f =
        floorDiv ((if sg = ''-'' then - 1 else 1) *
                 push_bit f (BigInt_of_digits ds * 10 ^ length ([]::string) + BigInt_of_digits [])
               + 10 ^ length ([]::string) sdiv 2) (10 ^ length ([]::string))"
      using tr sg b sp _ dg(1) e by (rule parse_after_sign) (simp_all add: ne)
    then show ?thesis
      using round [of "[]"] by (simp only: sign_def)
  qed
qed

section \<open>Where the code departs from the specification\<close>

text \<open>
  C1. The two backings do not agree on \<open>mul\<close> in the format of 8 fraction bits and 32 bits
  in all. Both operands are scaled integers within \<open>[MIN, MAX]\<close>; the shifted product is
  above \<open>2 ^ 53\<close>, and the number-backed \<open>mul\<close> converts it with \<^verbatim>\<open>Number\<close>, which rounds,
  before it wraps.
\<close>

theorem mul_number_differs_from_mul_bigint:
  "validate (config_of 8 32 (Some False)) = Inr (format_of 8 32 False) \<and>
   validate (config_of 8 32 (Some True)) = Inr (format_of 8 32 True) \<and>
   MAX_bigint (format_of 8 32 True) = 2147483647 \<and>
   mul_number (format_of 8 32 False) (Fin 2147483647) (Fin 2147483391) = Inr (Fin 2130706432) \<and>
   mul_bigint (format_of 8 32 True) 2147483647 2147483391 = 2130706433"
proof -
  have b: "bitlen \<bar>18014396345221121\<bar> = 53 + int 1" by code_simp
  have n: "Number 18014396345221121 = Fin 18014396345221120"
    using Number_large [OF b] by simp
  have p: "drop_bit 8 (2147483647 * 2147483391 :: int) = 18014396345221121"
    by (simp add: drop_bit_eq_div)
  have w: "wrapNumber (format_of 8 32 False) (Fin 18014396345221120) = Inr (Fin 2130706432)"
    by (simp add: wrapNumber_def format_of_def trunc_def)
  have m: "mul_number (format_of 8 32 False) (Fin 2147483647) (Fin 2147483391) = Inr (Fin 2130706432)"
    unfolding mul_number_def Let_def
    by (simp add: assertInteger_def) (simp add: format_of_def p n w [unfolded format_of_def])
  have g: "mul_bigint (format_of 8 32 True) 2147483647 2147483391 = 2130706433"
    by (simp add: mul_bigint_def format_of_def p wrapBigInt_mod)
  show ?thesis
    by (simp add: validate_config_of m g) (simp add: MAX_bigint_def format_of_def)
qed

theorem mul_number_differs_from_mul_bigint_witness:
  "mul_number (format_of 8 32 False) (Fin 2147483647) (Fin 2147483391)
     \<noteq> Inr (Fin (of_int (mul_bigint (format_of 8 32 True) 2147483647 2147483391)))"
  using mul_number_differs_from_mul_bigint by simp

text \<open>
  C6. In the format of 24 fraction bits and 32 bits in all, the number-backed \<open>div\<close> does
  not return the wrap of the truncated quotient \<open>(a << fractionBits) / b\<close>, which the
  bigint-backed one does: the quotient is above \<open>2 ^ 53\<close> and \<^verbatim>\<open>Number\<close> rounds it before
  the wrap.
\<close>

theorem div_number_is_not_wrapped_quotient:
  "validate (config_of 24 32 (Some False)) = Inr (format_of 24 32 False) \<and>
   validate (config_of 24 32 (Some True)) = Inr (format_of 24 32 True) \<and>
   MAX_bigint (format_of 24 32 True) = 2147483647 \<and>
   div_number (format_of 24 32 False) (Fin 2147483647) (Fin 3) = Inr (Fin (- 1437248172)) \<and>
   div_bigint (format_of 24 32 True) 2147483647 3 = Inr (- 1437248171) \<and>
   wrapBigInt (format_of 24 32 False) (push_bit 24 2147483647 sdiv 3) = - 1437248171"
proof -
  have q: "push_bit 24 (2147483647 :: int) sdiv 3 = 12009599000728917"
    by (simp add: push_bit_eq_mult signed_divide_int_def)
  have b: "bitlen \<bar>12009599000728917\<bar> = 53 + int 1" by code_simp
  have n: "Number 12009599000728917 = Fin 12009599000728916"
    using Number_large [OF b] by simp
  have w: "wrapNumber (format_of 24 32 False) (Fin 12009599000728916) = Inr (Fin (- 1437248172))"
    by (simp add: wrapNumber_def format_of_def trunc_def)
  have d: "div_number (format_of 24 32 False) (Fin 2147483647) (Fin 3) = Inr (Fin (- 1437248172))"
    unfolding div_number_def Let_def
    by (simp add: assertInteger_def bigint_div_def)
       (simp add: format_of_def q n w [unfolded format_of_def])
  have g: "wrapBigInt (format_of 24 32 True) 12009599000728917 = - 1437248171"
    "wrapBigInt (format_of 24 32 False) 12009599000728917 = - 1437248171"
    by (simp_all add: format_of_def wrapBigInt_mod)
  have e: "div_bigint (format_of 24 32 True) 2147483647 3 = Inr (- 1437248171)"
    using g(1) q by (simp add: div_bigint_def bigint_div_def format_of_def)
  show ?thesis
    using g(2) by (simp add: validate_config_of d e q) (simp add: MAX_bigint_def format_of_def)
qed

theorem div_number_is_not_wrapped_quotient_witness:
  "div_number (format_of 24 32 False) (Fin 2147483647) (Fin 3)
     \<noteq> Inr (Fin (of_int (wrapBigInt (format_of 24 32 False) (push_bit 24 2147483647 sdiv 3))))"
  using div_number_is_not_wrapped_quotient by simp

text \<open>
  C2. \<open>fromString\<close> rounds a tie toward \<open>+\<infinity>\<close>, not away from zero: at 16 fraction bits
  the string \<open>-0.00000762939453125\<close> is \<open>- 1 / 2 ^ 17\<close>, half a step below zero, and it parses
  to \<open>0\<close>, where ties away from zero give \<open>- 1\<close>.
\<close>

theorem fromString_negative_tie:
  "fromString_number (format_of 16 32 False) ''-0.00000762939453125'' = Inr (Fin 0) \<and>
   fromString_bigint (format_of 16 32 True) ''-0.00000762939453125'' = Inr 0 \<and>
   - (762939453125 / 10 ^ 17) * 2 ^ 16 = (- (1 / 2) :: rat) \<and>
   wrapBigInt (format_of 16 32 True)
     (round_half_away_from_zero (- (762939453125 / 10 ^ 17) * 2 ^ 16)) = - 1"
proof -
  have p: "parseFixedPointString ''-0.00000762939453125'' 16 = Inr 0" by code_simp
  have n: "Number 0 = Fin 0" by (simp add: Number_def fl_def)
  have a: "fromString_number (format_of 16 32 False) ''-0.00000762939453125'' = Inr (Fin 0)"
    by (simp add: fromString_number_def format_of_def p n wrapNumber_def trunc_def)
  have b: "fromString_bigint (format_of 16 32 True) ''-0.00000762939453125'' = Inr 0"
    by (simp add: fromString_bigint_def format_of_def p wrapBigInt_mod)
  have c: "- (762939453125 / 10 ^ 17) * 2 ^ 16 = (- (1 / 2) :: rat)" by simp
  have d: "round_half_away_from_zero (- (1 / 2)) = - 1"
    by (simp add: round_half_away_from_zero_def)
  have e: "wrapBigInt (format_of 16 32 True) (- 1) = - 1"
    by (simp add: format_of_def wrapBigInt_mod)
  show ?thesis
    unfolding c d by (simp add: a b e)
qed

theorem fromString_negative_tie_witness:
  "fromString_bigint (format_of 16 32 True) ''-0.00000762939453125''
     \<noteq> Inr (wrapBigInt (format_of 16 32 True)
           (round_half_away_from_zero (- (762939453125 / 10 ^ 17) * 2 ^ 16)))"
  using fromString_negative_tie by simp

lemma bigIntLut_q16:
  assumes "fractionBits fmt = 16"
  shows "bigIntLut SIN_LUT_Q16 fmt =
     Inr \<lparr> TWO_PI = wrapBigInt fmt 411775, PI_HALF = wrapBigInt fmt 102944,
           sinLut = map (wrapBigInt fmt) SIN_LUT_Q16 \<rparr>"
proof -
  have s: "scaleQ16_bigint fmt (Fin (of_int v)) = Inr (wrapBigInt fmt v)" for v
    using assms by (simp add: scaleQ16_bigint_def DEFAULT_FRACTION_BITS_def)
  have "mapE (\<lambda>v. scaleQ16_bigint fmt (Fin (of_int v))) xs = Inr (map (wrapBigInt fmt) xs)" for xs
    by (induction xs) (simp_all add: s)
  then show ?thesis
    using s [of 411775] s [of 102944]
    by (simp add: bigIntLut_def s TWO_PI_Q16_def PI_HALF_Q16_def)
qed

text \<open>
  C4. In a format too narrow for \<open>2\<pi>\<close> the rescaled \<open>TWO_PI\<close> wraps to a negative number:
  with 16 fraction bits and 18 bits in all it is \<open>- 112513\<close>. There \<^verbatim>\<open>sin\<close> computes a
  negative index for the scaled integer \<open>112512\<close>, which is within \<open>[MIN, MAX]\<close>, and the
  table read is \<^verbatim>\<open>undefined\<close>, not a value within \<open>[MIN, MAX]\<close>. This holds for every table
  of two or more samples.
\<close>

theorem sin_undefined_in_narrow_format:
  assumes "2 \<le> length SIN_LUT_Q16"
  shows "\<exists>c. createFixedPoint SIN_LUT_Q16 (config_of 16 18 (Some True))
             = Inr (BigIntOps (format_of 16 18 True) c) \<and>
           TWO_PI c = - 112513 \<and>
           MIN_bigint (format_of 16 18 True) \<le> 112512 \<and>
           112512 \<le> MAX_bigint (format_of 16 18 True) \<and>
           sin_bigint SIN_LUT_Q16 c 112512 = Inr None"
proof -
  define fmt where "fmt = format_of 16 18 True"
  define c where "c = \<lparr> TWO_PI = - 112513, PI_HALF = wrapBigInt fmt 102944,
                         sinLut = map (wrapBigInt fmt) SIN_LUT_Q16 \<rparr>"
  define L where "L = int (LUT_SIZE SIN_LUT_Q16)"
  define q where "q = (112512 * L) div 112513"
  have L: "2 \<le> L" using assms by (simp add: L_def LUT_SIZE_def)
  have w: "wrapBigInt fmt 411775 = - 112513"
    by (simp add: fmt_def format_of_def wrapBigInt_mod)
  have lut: "bigIntLut SIN_LUT_Q16 fmt = Inr c"
    unfolding c_def w [symmetric] by (rule bigIntLut_q16) (simp add: fmt_def format_of_def)
  have cfp: "createFixedPoint SIN_LUT_Q16 (config_of 16 18 (Some True)) = Inr (BigIntOps fmt c)"
    using lut by (simp add: createFixedPoint_def validate_config_of fmt_def [symmetric])
       (simp add: fmt_def format_of_def)
  have q1: "1 \<le> q"
  proof -
    have "112513 * 1 \<le> 112512 * L" using L by simp
    then have "(112513 * 1) div 112513 \<le> (112512 * L) div 112513" by (rule zdiv_mono1) simp
    then show ?thesis by (simp add: q_def)
  qed
  have qL: "q < L"
  proof -
    have "112513 * q \<le> 112512 * L" unfolding q_def by (rule div_mult_le_self) simp
    with L show ?thesis by linarith
  qed
  have idx: "sin_idx_bigint SIN_LUT_Q16 c 112512 = Inr (- q)"
  proof -
    have "(112512::int) smod - 112513 = 112512" by (simp add: signed_modulo_int_def)
    moreover have "(112512 * L) sdiv - 112513 = - q"
      using L by (simp add: signed_divide_int_def q_def sgn_if abs_mult)
    ultimately show ?thesis
      by (simp add: sin_idx_bigint_def c_def bigint_rem_def bigint_div_def L_def)
  qed
  have r: "bigint_rem (- q) L = Inr (- q)"
    using q1 qL by (simp add: bigint_rem_def signed_modulo_int_def sgn_if)
  have s: "sin_bigint SIN_LUT_Q16 c 112512 = Inr None"
    using q1 by (simp add: sin_bigint_def idx r array_get_def flip: L_def)
  have m: "MIN_bigint fmt \<le> 112512" "112512 \<le> MAX_bigint fmt"
    by (simp_all add: fmt_def format_of_def MIN_bigint_def MAX_bigint_def)
  have "TWO_PI c = - 112513" by (simp add: c_def)
  with cfp m s show ?thesis unfolding fmt_def by blast
qed

theorem sin_undefined_in_narrow_format_witness:
  "\<exists>c. createFixedPoint sample_lut (config_of 16 18 (Some True))
             = Inr (BigIntOps (format_of 16 18 True) c) \<and>
        TWO_PI c = - 112513 \<and> sin_bigint sample_lut c 112512 = Inr None"
proof -
  have "2 \<le> length sample_lut" by (simp add: sample_lut_def)
  from sin_undefined_in_narrow_format [OF this] show ?thesis by blast
qed

end
